theory Spec2Isabelle
  imports Complex_Main "HOL-Library.Signed_Division" "HOL-Library.Log_Nat"
begin

section \<open>The ring buffer of ringbuf.c\<close>

text \<open>
  Undefined behaviour and failed assertions are results of the model.
\<close>

datatype error =
    AssertFail   \<comment> \<open>an \<open>assert\<close> of the source fails\<close>
  | DivByZero    \<comment> \<open>\<open>%\<close> with a zero divisor, or \<open>INT_MIN % -1\<close>: the division traps\<close>
  | OutOfBounds  \<comment> \<open>\<open>memcpy\<close> or a read outside the allocated block\<close>

text \<open>
  The C type \<open>int\<close> has 32 bits. A value of this type is modelled by the \<open>int\<close> it
  denotes, and every addition and subtraction of the source by the mathematical result
  brought back into the range: \<open>int32 x\<close> is \<open>x\<close> when \<open>x\<close> is in the range from \<open>- 2^31\<close> to
  \<open>2^31 - 1\<close>, and wraps around in two's complement otherwise, which is what the compiled
  code does with a sum that overflows (the C standard leaves it undefined).
\<close>

definition int32 :: "int \<Rightarrow> int" where
  "int32 x = (x + 2147483648) mod 4294967296 - 2147483648"

text \<open>
  The operator \<open>%\<close> of C truncates towards zero: it is \<open>smod\<close>, not \<open>mod\<close>. Its second
  operand must not be zero, and \<open>INT_MIN % -1\<close> has no result either.
\<close>

definition c_rem :: "int \<Rightarrow> int \<Rightarrow> error + int" where
  "c_rem a b =
     (if b = 0 then Inl DivByZero
      else if a = - 2147483648 \<and> b = - 1 then Inl DivByZero
      else Inr (a smod b))"

text \<open>
  \<open>ring_buffer_t\<close>. The block \<open>data\<close> points to is the list of its item slots, each slot
  standing for \<open>item_size\<close> consecutive bytes; a slot nothing has been written to holds
  \<open>None\<close>, and the empty list is the \<open>NULL\<close> pointer. A pointer into the block,
  \<open>(uint8_t *)data + item_size * i\<close>, is represented by its slot index \<open>i\<close>; a negative
  \<open>i\<close> (which C converts to \<open>size_t\<close>, so that the sum wraps around to an address in front
  of the block) or one beyond the capacity is a pointer outside the block.
\<close>

record 'a ring_buffer_t =
  data :: "'a option list"
  item_size :: nat
  capacity :: int
  head :: int
  tail :: int
  count :: int

text \<open>\<open>malloc\<close> is taken to succeed.\<close>

definition init_ring_buffer :: "nat \<Rightarrow> int \<Rightarrow> error + 'a ring_buffer_t" where
  "init_ring_buffer item_sz initial_capacity =
     (if \<not> item_sz > 0 then Inl AssertFail
      else Inr \<lparr> data = (if initial_capacity > 0 then replicate (nat initial_capacity) None else []),
                 item_size = item_sz,
                 capacity = initial_capacity,
                 head = 0, tail = 0, count = 0 \<rparr>)"

definition destroy_ring_buffer :: "'a ring_buffer_t \<Rightarrow> 'a ring_buffer_t" where
  "destroy_ring_buffer buf =
     (if data buf \<noteq> [] then buf\<lparr> data := [], capacity := 0 \<rparr> else buf)"

definition ring_buffer_append :: "'a ring_buffer_t \<Rightarrow> int \<Rightarrow> error + 'a ring_buffer_t" where
  "ring_buffer_append buf n =
     (if \<not> (n \<ge> 0 \<and> n \<le> int32 (capacity buf - count buf)) then Inl AssertFail
      else case c_rem (int32 (tail buf + n)) (capacity buf) of
        Inl e \<Rightarrow> Inl e
      | Inr t \<Rightarrow> Inr (buf\<lparr> tail := t, count := int32 (count buf + n) \<rparr>))"

definition ring_buffer_remove :: "'a ring_buffer_t \<Rightarrow> int \<Rightarrow> error + 'a ring_buffer_t" where
  "ring_buffer_remove buf n =
     (if \<not> (n \<ge> 0 \<and> n \<le> count buf) then Inl AssertFail
      else case c_rem (int32 (head buf + n)) (capacity buf) of
        Inl e \<Rightarrow> Inl e
      | Inr h \<Rightarrow> Inr (buf\<lparr> head := h, count := int32 (count buf - n) \<rparr>))"

definition ring_buffer_get_head :: "'a ring_buffer_t \<Rightarrow> int \<Rightarrow> error + int" where
  "ring_buffer_get_head buf offset =
     (if \<not> (offset \<le> count buf \<and> count buf > 0) then Inl AssertFail
      else c_rem (int32 (head buf + offset)) (capacity buf))"

definition ring_buffer_get_tail :: "'a ring_buffer_t \<Rightarrow> int \<Rightarrow> error + int" where
  "ring_buffer_get_tail buf offset =
     (if \<not> offset \<le> count buf then Inl AssertFail
      else c_rem (int32 (tail buf - offset)) (capacity buf))"

definition ring_buffer_is_contiguous :: "'a ring_buffer_t \<Rightarrow> bool" where
  "ring_buffer_is_contiguous buf =
     (int32 (head buf + count buf) = tail buf \<or> int32 (head buf + count buf) = capacity buf)"

definition ring_buffer_get_contiguous_span :: "'a ring_buffer_t \<Rightarrow> int" where
  "ring_buffer_get_contiguous_span buf =
     (if ring_buffer_is_contiguous buf then int32 (capacity buf - tail buf)
      else int32 (head buf - tail buf))"

subsection \<open>Memory accesses through the pointers of a ring\<close>

text \<open>
  \<open>memcpy (dst, src, item_size * n)\<close> where \<open>dst\<close> is a pointer into the block of the ring
  and \<open>src\<close> is another buffer: the first \<open>n\<close> items of \<open>src\<close> are stored in the slots
  \<open>dst, ..., dst + n - 1\<close>. A negative \<open>n\<close> would be converted to a huge \<open>size_t\<close>.
\<close>

definition memcpy_to ::
  "'a ring_buffer_t \<Rightarrow> int \<Rightarrow> 'a option list \<Rightarrow> int \<Rightarrow> error + 'a ring_buffer_t" where
  "memcpy_to buf dst src n =
     (if n < 0 \<or> int (length src) < n \<or> dst < 0 \<or> int (length (data buf)) < dst + n
      then Inl OutOfBounds
      else Inr (buf\<lparr> data := take (nat dst) (data buf) @ take (nat n) src
                               @ drop (nat (dst + n)) (data buf) \<rparr>))"

text \<open>Reading the item a pointer into the block points to.\<close>

definition load_item :: "'a ring_buffer_t \<Rightarrow> int \<Rightarrow> error + 'a option" where
  "load_item buf p =
     (if 0 \<le> p \<and> p < int (length (data buf)) then Inr (data buf ! nat p)
      else Inl OutOfBounds)"

section \<open>The type \<open>double\<close>\<close>

text \<open>
  A \<open>double\<close> is a number of the binary64 format of IEEE 754: a finite one is the
  rational it denotes, and the two zeros are one value (the decoder never divides by a
  zero that a computation has produced, so their signs are not observable).
\<close>

datatype double = Finite rat | PInf | NInf | NaN

text \<open>Rounding to the nearest integer, a tie to the even one.\<close>

definition rhe :: "rat \<Rightarrow> int" where
  "rhe x = (let f = \<lfloor>x\<rfloor>; r = x - of_int f in
            if r < 1 / 2 then f else if 1 / 2 < r then f + 1
            else if even f then f else f + 1)"

text \<open>The binary exponent of a positive rational: \<open>2 powi expo x \<le> x < 2 powi (expo x + 1)\<close>.\<close>

definition expo :: "rat \<Rightarrow> int" where
  "expo x = (if 1 \<le> x then bitlen \<lfloor>x\<rfloor> - 1 else - bitlen (\<lceil>1 / x\<rceil> - 1))"

text \<open>
  The exponent of the last of the 53 bits of the significand; subnormal numbers are the
  multiples of \<open>2 powi - 1074\<close>.
\<close>

definition scale :: "rat \<Rightarrow> int" where
  "scale a = max (expo a - 52) (- 1074)"

definition round_mag :: "rat \<Rightarrow> rat" where
  "round_mag a = of_int (rhe (a / 2 powi scale a)) * 2 powi scale a"

text \<open>
  The result of an operation whose exact value is \<open>x\<close>, in the default rounding mode: the
  nearest number of the format, and an infinity from \<open>2 powi 1024\<close> on.
\<close>

definition round_double :: "rat \<Rightarrow> double" where
  "round_double x =
     (if x = 0 then Finite 0
      else let v = round_mag \<bar>x\<bar> in
        if 2 powi 1024 \<le> v then (if 0 < x then PInf else NInf)
        else Finite (if 0 < x then v else - v))"

text \<open>The conversion \<open>(double)i\<close> of an integer.\<close>

definition d_of_int :: "int \<Rightarrow> double" where
  "d_of_int i = round_double (of_int i)"

text \<open>The operators \<open>+\<close>, \<open>*\<close>, \<open>/\<close> and \<open><\<close> on doubles.\<close>

fun d_add :: "double \<Rightarrow> double \<Rightarrow> double" where
  "d_add (Finite a) (Finite b) = round_double (a + b)"
| "d_add NaN y = NaN"
| "d_add x NaN = NaN"
| "d_add PInf NInf = NaN"
| "d_add NInf PInf = NaN"
| "d_add PInf y = PInf"
| "d_add x PInf = PInf"
| "d_add NInf y = NInf"
| "d_add x NInf = NInf"

fun d_mul :: "double \<Rightarrow> double \<Rightarrow> double" where
  "d_mul (Finite a) (Finite b) = round_double (a * b)"
| "d_mul NaN y = NaN"
| "d_mul x NaN = NaN"
| "d_mul (Finite a) PInf = (if a = 0 then NaN else if 0 < a then PInf else NInf)"
| "d_mul (Finite a) NInf = (if a = 0 then NaN else if 0 < a then NInf else PInf)"
| "d_mul PInf (Finite b) = (if b = 0 then NaN else if 0 < b then PInf else NInf)"
| "d_mul NInf (Finite b) = (if b = 0 then NaN else if 0 < b then NInf else PInf)"
| "d_mul PInf PInf = PInf"
| "d_mul PInf NInf = NInf"
| "d_mul NInf PInf = NInf"
| "d_mul NInf NInf = PInf"

text \<open>
  A division by zero gives an infinity of the sign of the dividend, and \<open>0 / 0\<close> is not a
  number. Every divisor of the decoder is the conversion of an \<open>int\<close>: a zero divisor
  is \<open>+0\<close>.
\<close>

fun d_div :: "double \<Rightarrow> double \<Rightarrow> double" where
  "d_div (Finite a) (Finite b) =
     (if b = 0 then (if a = 0 then NaN else if 0 < a then PInf else NInf)
      else round_double (a / b))"
| "d_div NaN y = NaN"
| "d_div x NaN = NaN"
| "d_div (Finite a) PInf = Finite 0"
| "d_div (Finite a) NInf = Finite 0"
| "d_div PInf (Finite b) = (if 0 \<le> b then PInf else NInf)"
| "d_div NInf (Finite b) = (if 0 \<le> b then NInf else PInf)"
| "d_div PInf PInf = NaN"
| "d_div PInf NInf = NaN"
| "d_div NInf PInf = NaN"
| "d_div NInf NInf = NaN"

fun d_less :: "double \<Rightarrow> double \<Rightarrow> bool" where
  "d_less (Finite a) (Finite b) = (a < b)"
| "d_less NaN y = False"
| "d_less x NaN = False"
| "d_less (Finite a) PInf = True"
| "d_less (Finite a) NInf = False"
| "d_less PInf y = False"
| "d_less NInf NInf = False"
| "d_less NInf y = True"

text \<open>The values a variable of type \<open>double\<close> can hold: a finite one is a number of the format.\<close>

definition is_double :: "double \<Rightarrow> bool" where
  "is_double x = (case x of Finite r \<Rightarrow> round_double r = Finite r | _ \<Rightarrow> True)"

section \<open>The decoder of decoding.c\<close>

definition BUFFERED_AUDIO_SAMPLES :: int where
  "BUFFERED_AUDIO_SAMPLES = 0x4000"

definition BUFFERED_VIDEO_FRAMES :: int where
  "BUFFERED_VIDEO_FRAMES = 0x20"

definition RESAMPLE_BUFFER_SIZE :: int where
  "RESAMPLE_BUFFER_SIZE = 0x1000"

text \<open>\<open>AVERROR(EAGAIN)\<close> of libavutil, with the value of \<open>EAGAIN\<close> on Linux.\<close>

definition AVERROR_EAGAIN :: int where
  "AVERROR_EAGAIN = - 11"

text \<open>
  Demultiplexing, decoding, resampling and scaling are done by libraries. A packet of the
  model carries, beside its \<open>stream_index\<close>, what these libraries return when the decoder
  hands the packet to them: the return values of \<open>avcodec_send_packet\<close>,
  \<open>avcodec_receive_frame\<close> and \<open>swr_get_out_samples\<close>, the samples \<open>swr_convert\<close> leaves
  in the resample buffer (their number is its return value; an error return leaves none),
  the \<open>width\<close>, \<open>height\<close> and \<open>pts\<close> of the decoded frame, whether its \<open>data[0]\<close> is set,
  and the frame \<open>sws_scale\<close> writes.
\<close>

record ('s, 'f) packet =
  stream_index :: int
  avcodec_send_packet :: int
  avcodec_receive_frame :: int
  swr_get_out_samples :: int
  swr_convert :: "'s list"
  frame_width :: int
  frame_height :: int
  frame_data0 :: bool
  frame_pts :: int
  sws_scale :: 'f

text \<open>
  \<open>decoder_t\<close> with the fields of its \<open>decoder_state_t\<close> that the polling functions use:
  \<open>format\<close> is the input, the packets \<open>av_read_frame\<close> has yet to deliver;
  \<open>time_base_num\<close> and \<open>time_base_den\<close> are \<open>video_stream->time_base\<close>.
\<close>

record ('s, 'f) decoder_t =
  audio_samples :: "'s ring_buffer_t"
  video_frames :: "'f ring_buffer_t"
  video_fps_num :: int
  video_fps_den :: int
  end_of_input :: bool
  video_next_pts :: double
  audio_stream_index :: int
  video_stream_index :: int
  time_base_num :: int
  time_base_den :: int
  format :: "('s, 'f) packet list"

text \<open>\<open>decode_frame\<close>; its callers always pass a packet.\<close>

definition decode_frame :: "('s, 'f) packet \<Rightarrow> bool" where
  "decode_frame packet =
     (if avcodec_send_packet packet \<noteq> 0 then False
      else let ret = avcodec_receive_frame packet in
        if ret \<ge> 0 then True
        else if ret = AVERROR_EAGAIN then True
        else False)"

text \<open>
  The loop of \<open>poll_av_packet_audio\<close> that copies the resampled samples into the ring;
  \<open>ptr\<close> is the part of the resample buffer still to copy, and \<open>sample_count\<close> its length.
  The loop need not terminate (a span of 0 changes nothing): \<open>None\<close> is the run that
  never returns.
\<close>

partial_function (option) copy_samples ::
  "'a ring_buffer_t \<Rightarrow> 'a list \<Rightarrow> (error + 'a ring_buffer_t) option" where
  "copy_samples buf ptr =
     (let sample_count = int (length ptr) in
      if \<not> sample_count > 0 then Some (Inr buf)
      else case ring_buffer_get_tail buf 0 of Inl e \<Rightarrow> Some (Inl e) | Inr span_ptr \<Rightarrow>
        let span_count = ring_buffer_get_contiguous_span buf;
            span_count = (if span_count > sample_count then sample_count else span_count)
        in case memcpy_to buf span_ptr (map Some ptr) span_count of Inl e \<Rightarrow> Some (Inl e) | Inr buf1 \<Rightarrow>
           case ring_buffer_append buf1 span_count of Inl e \<Rightarrow> Some (Inl e) | Inr buf2 \<Rightarrow>
             copy_samples buf2 (drop (nat span_count) ptr))"

definition poll_av_packet_audio ::
  "('s, 'f) decoder_t \<Rightarrow> ('s, 'f) packet \<Rightarrow> (error + ('s, 'f) decoder_t) option" where
  "poll_av_packet_audio decoder packet =
     (if \<not> decode_frame packet then Some (Inr decoder)
      else let sample_count = swr_get_out_samples packet in
        if sample_count = 0 then Some (Inr decoder)
        else if \<not> sample_count \<le> RESAMPLE_BUFFER_SIZE then Some (Inl AssertFail)
        else case copy_samples (audio_samples decoder) (swr_convert packet) of
               None \<Rightarrow> None
             | Some (Inl e) \<Rightarrow> Some (Inl e)
             | Some (Inr buf) \<Rightarrow> Some (Inr (decoder\<lparr> audio_samples := buf \<rparr>)))"

lemma int32_mod: "int32 x mod 4294967296 = x mod 4294967296"
proof -
  have "int32 x mod 4294967296 = (x + 2147483648 - 2147483648) mod 4294967296"
    unfolding int32_def by (rule mod_diff_left_eq)
  then show ?thesis by simp
qed

lemma int32_range: "- 2147483648 \<le> int32 x" "int32 x < 2147483648"
  by (simp_all add: int32_def)

lemma int32_pos_mod:
  assumes "1 \<le> int32 x"
  shows "1 \<le> x mod 4294967296"
proof (rule ccontr)
  assume "\<not> 1 \<le> x mod 4294967296"
  then have z: "x mod 4294967296 = 0" using pos_mod_sign [of 4294967296 x] by simp
  have "(x + 2147483648) mod 4294967296 = (x mod 4294967296 + 2147483648) mod 4294967296"
    by (simp only: mod_add_left_eq)
  then have "int32 x = 0" by (simp add: int32_def z)
  with assms show False by simp
qed

text \<open>
  The loop of \<open>poll_av_packet_video\<close> that inserts duplicates of the last frame. Every
  round appends a frame, and \<open>ring_buffer_append\<close> asserts that the ring has room for
  it: the loop ends after at most \<open>capacity - count\<close> rounds, taken modulo \<open>2^32\<close>.
\<close>

function dup_frames ::
  "double \<Rightarrow> double \<Rightarrow> 'a ring_buffer_t \<Rightarrow> double \<Rightarrow> error + ('a ring_buffer_t \<times> double)" where
  "dup_frames frame_time pts buf next_pts =
     (if d_less (d_add next_pts frame_time) pts then
        case ring_buffer_get_tail buf 1 of Inl e \<Rightarrow> Inl e | Inr last_frame \<Rightarrow>
        case ring_buffer_get_tail buf 0 of Inl e \<Rightarrow> Inl e | Inr dupe_frame \<Rightarrow>
        if data buf = [] \<and> last_frame = 0 then Inl AssertFail
        else case load_item buf last_frame of Inl e \<Rightarrow> Inl e | Inr x \<Rightarrow>
        case memcpy_to buf dupe_frame [x] 1 of Inl e \<Rightarrow> Inl e | Inr buf1 \<Rightarrow>
        case ring_buffer_append buf1 1 of Inl e \<Rightarrow> Inl e | Inr buf2 \<Rightarrow>
          dup_frames frame_time pts buf2 (d_add next_pts frame_time)
      else Inr (buf, next_pts))"
  by pat_completeness auto
termination
proof (relation "measure (\<lambda>(frame_time, pts, buf, next_pts).
         nat ((capacity buf - count buf) mod 4294967296))", goal_cases)
  case 1
  show ?case by simp
next
  case (2 frame_time pts buf next_pts last_frame dupe_frame x buf1 buf2)
  from 2(6) have b1: "capacity buf1 = capacity buf" "count buf1 = count buf"
    by (auto simp: memcpy_to_def split: if_splits)
  from 2(7) have b2: "capacity buf2 = capacity buf" "count buf2 = int32 (count buf + 1)"
    and a: "1 \<le> int32 (capacity buf - count buf)"
    using b1 by (auto simp: ring_buffer_append_def split: if_splits sum.splits)
  have "(capacity buf - int32 (count buf + 1)) mod 4294967296
      = (capacity buf - (count buf + 1)) mod 4294967296"
    by (rule mod_diff_cong [OF refl int32_mod])
  also have "\<dots> = ((capacity buf - count buf) mod 4294967296 - 1) mod 4294967296"
    by (simp add: mod_diff_left_eq algebra_simps)
  also have "\<dots> = (capacity buf - count buf) mod 4294967296 - 1"
    using int32_pos_mod [OF a] by (intro mod_pos_pos_trivial) simp_all
  finally show ?case using b2 int32_pos_mod [OF a] by simp
qed

declare dup_frames.simps [simp del]

text \<open>
  \<open>poll_av_packet_video\<close> from the duplication loop on: the duplicates, then the frame
  itself, which \<open>sws_scale\<close> writes into the slot at the tail.
\<close>

definition emit_video_frame ::
  "('s, 'f) decoder_t \<Rightarrow> ('s, 'f) packet \<Rightarrow> double \<Rightarrow> double \<Rightarrow> error + ('s, 'f) decoder_t" where
  "emit_video_frame decoder packet frame_time pts =
     (case dup_frames frame_time pts (video_frames decoder) (video_next_pts decoder) of
        Inl e \<Rightarrow> Inl e
      | Inr (buf, next_pts) \<Rightarrow>
        case ring_buffer_get_tail buf 0 of Inl e \<Rightarrow> Inl e | Inr new_frame \<Rightarrow>
        case memcpy_to buf new_frame [Some (sws_scale packet)] 1 of Inl e \<Rightarrow> Inl e | Inr buf1 \<Rightarrow>
        case ring_buffer_append buf1 1 of Inl e \<Rightarrow> Inl e | Inr buf2 \<Rightarrow>
          Inr (decoder\<lparr> video_frames := buf2, video_next_pts := d_add next_pts frame_time \<rparr>))"

definition poll_av_packet_video ::
  "('s, 'f) decoder_t \<Rightarrow> ('s, 'f) packet \<Rightarrow> error + ('s, 'f) decoder_t" where
  "poll_av_packet_video decoder packet =
     (if \<not> decode_frame packet then Inr decoder
      else if frame_width packet = 0 \<or> frame_height packet = 0 \<or> \<not> frame_data0 packet
      then Inr decoder
      else
        let frame_time = d_div (d_of_int (video_fps_den decoder)) (d_of_int (video_fps_num decoder));
            pts = d_div (d_mul (d_of_int (frame_pts packet)) (d_of_int (time_base_num decoder)))
                    (d_of_int (time_base_den decoder))
        in if count (video_frames decoder) = 0
           then emit_video_frame (decoder\<lparr> video_next_pts := pts \<rparr>) packet frame_time pts
           else if d_less pts (video_next_pts decoder) then Inr decoder
           else emit_video_frame decoder packet frame_time pts)"

text \<open>
  \<open>av_read_frame\<close> delivers the first packet of \<open>format\<close>, and fails when there is none.
\<close>

definition poll_av_data ::
  "('s, 'f) decoder_t \<Rightarrow> (error + bool \<times> ('s, 'f) decoder_t) option" where
  "poll_av_data decoder =
     (if end_of_input decoder then Some (Inr (False, decoder))
      else case format decoder of
        packet # rest \<Rightarrow>
          let decoder = decoder\<lparr> format := rest \<rparr> in
          if stream_index packet = audio_stream_index decoder then
            (case poll_av_packet_audio decoder packet of
               None \<Rightarrow> None
             | Some (Inl e) \<Rightarrow> Some (Inl e)
             | Some (Inr decoder) \<Rightarrow> Some (Inr (True, decoder)))
          else if stream_index packet = video_stream_index decoder then
            (case poll_av_packet_video decoder packet of
               Inl e \<Rightarrow> Some (Inl e)
             | Inr decoder \<Rightarrow> Some (Inr (True, decoder)))
          else Some (Inr (True, decoder))
      | [] \<Rightarrow> Some (Inr (False, decoder\<lparr> end_of_input := True \<rparr>)))"

lemma emit_video_frame_format:
  "emit_video_frame d p ft pts = Inr d' \<Longrightarrow> format d' = format d"
  by (auto simp: emit_video_frame_def split: sum.splits prod.splits)

lemma poll_av_packet_video_format:
  "poll_av_packet_video d p = Inr d' \<Longrightarrow> format d' = format d"
  by (auto simp: poll_av_packet_video_def Let_def split: if_splits dest!: emit_video_frame_format)

lemma poll_av_packet_audio_format:
  "poll_av_packet_audio d p = Some (Inr d') \<Longrightarrow> format d' = format d"
  by (auto simp: poll_av_packet_audio_def Let_def split: if_splits option.splits sum.splits)

lemma poll_av_data_consumes:
  "poll_av_data d = Some (Inr (True, d')) \<Longrightarrow> length (format d') < length (format d)"
  by (auto simp: poll_av_data_def Let_def split: if_splits list.splits option.splits sum.splits
      dest!: poll_av_packet_audio_format poll_av_packet_video_format)

text \<open>
  \<open>ensure_av_data\<close>. In C an \<open>int\<close> used as a condition is true when it is not zero.
  Every round of the loop that goes on has taken a packet from the input.
\<close>

function ensure_av_data ::
  "('s, 'f) decoder_t \<Rightarrow> int \<Rightarrow> int \<Rightarrow> (error + bool \<times> ('s, 'f) decoder_t) option" where
  "ensure_av_data decoder needed_audio_samples needed_video_frames =
     (if (needed_audio_samples \<noteq> 0 \<and> count (audio_samples decoder) \<le> needed_audio_samples) \<or>
         (needed_video_frames \<noteq> 0 \<and> count (video_frames decoder) \<le> needed_video_frames)
      then
        case poll_av_data decoder of
          None \<Rightarrow> None
        | Some (Inl e) \<Rightarrow> Some (Inl e)
        | Some (Inr (False, decoder)) \<Rightarrow>
            Some (Inr ((count (audio_samples decoder) > 0 \<or> \<not> needed_audio_samples \<noteq> 0) \<and>
                       (count (video_frames decoder) > 0 \<or> \<not> needed_video_frames \<noteq> 0), decoder))
        | Some (Inr (True, decoder)) \<Rightarrow>
            ensure_av_data decoder needed_audio_samples needed_video_frames
      else Some (Inr (True, decoder)))"
  by pat_completeness auto
termination
  by (relation "measure (\<lambda>(d, na, nv). length (format d))")
     (auto dest: poll_av_data_consumes)

declare ensure_av_data.simps [simp del]


section \<open>The invariant of a ring\<close>

definition ring_inv :: "'a ring_buffer_t \<Rightarrow> bool" where
  "ring_inv buf \<longleftrightarrow>
     0 \<le> count buf \<and> count buf \<le> capacity buf \<and>
     0 \<le> head buf \<and> head buf < capacity buf \<and>
     0 \<le> tail buf \<and> tail buf < capacity buf \<and>
     (tail buf - head buf) mod capacity buf = count buf mod capacity buf"

text \<open>A sequence of calls of \<open>ring_buffer_append\<close> and \<open>ring_buffer_remove\<close>.\<close>

datatype ring_op = Append int | Remove int

fun apply_ring_op :: "'a ring_buffer_t \<Rightarrow> ring_op \<Rightarrow> error + 'a ring_buffer_t" where
  "apply_ring_op buf (Append n) = ring_buffer_append buf n"
| "apply_ring_op buf (Remove n) = ring_buffer_remove buf n"

text \<open>The rings after each call of the sequence, or the error of the first call that fails.\<close>

fun run_ring_ops :: "'a ring_buffer_t \<Rightarrow> ring_op list \<Rightarrow> error + 'a ring_buffer_t list" where
  "run_ring_ops buf [] = Inr []"
| "run_ring_ops buf (x # xs) =
     (case apply_ring_op buf x of
        Inl e \<Rightarrow> Inl e
      | Inr b \<Rightarrow> (case run_ring_ops b xs of Inl e \<Rightarrow> Inl e | Inr bs \<Rightarrow> Inr (b # bs)))"

text \<open>The precondition of one call, and of every call of a sequence in the ring it is made on.\<close>

fun ring_op_pre :: "'a ring_buffer_t \<Rightarrow> ring_op \<Rightarrow> bool" where
  "ring_op_pre buf (Append n) = (0 \<le> n \<and> n \<le> capacity buf - count buf)"
| "ring_op_pre buf (Remove n) = (0 \<le> n \<and> n \<le> count buf)"

fun ring_ops_pre :: "'a ring_buffer_t \<Rightarrow> ring_op list \<Rightarrow> bool" where
  "ring_ops_pre buf [] = True"
| "ring_ops_pre buf (x # xs) =
     (ring_op_pre buf x \<and>
      (case apply_ring_op buf x of Inl e \<Rightarrow> True | Inr b \<Rightarrow> ring_ops_pre b xs))"

text \<open>
  A ring with its block: the invariant holds, the block has \<open>capacity\<close> slots, as
  \<open>init_ring_buffer\<close> allocates it, and the capacity is at most \<open>2^30\<close>, so that no sum
  of two of the fields leaves the range of \<open>int\<close>. The invariant puts \<open>head\<close> in
  \<open>[0, capacity)\<close>, so the capacity of such a ring is above 0.
\<close>

definition ring_ok :: "'a ring_buffer_t \<Rightarrow> bool" where
  "ring_ok buf \<longleftrightarrow>
     ring_inv buf \<and> length (data buf) = nat (capacity buf) \<and> capacity buf \<le> 2 ^ 30"

text \<open>The items of the live region, from the head on: what the ring holds, oldest first.\<close>

definition live :: "'a ring_buffer_t \<Rightarrow> 'a option list" where
  "live buf =
     map (\<lambda>i. data buf ! nat ((head buf + int i) mod capacity buf)) [0..<nat (count buf)]"

text \<open>Reading the item at \<open>ring_buffer_get_head (buf, offset)\<close>, as a consumer does.\<close>

definition read_head :: "'a ring_buffer_t \<Rightarrow> int \<Rightarrow> error + 'a option" where
  "read_head buf offset =
     (case ring_buffer_get_head buf offset of Inl e \<Rightarrow> Inl e | Inr p \<Rightarrow> load_item buf p)"

text \<open>
  Writing a batch of items as a producer does: the items are copied to
  \<open>ring_buffer_get_tail (buf, 0)\<close> and committed with \<open>ring_buffer_append\<close>.
\<close>

definition write_batch :: "'a ring_buffer_t \<Rightarrow> 'a option list \<Rightarrow> error + 'a ring_buffer_t" where
  "write_batch buf xs =
     (case ring_buffer_get_tail buf 0 of Inl e \<Rightarrow> Inl e | Inr p \<Rightarrow>
      case memcpy_to buf p xs (int (length xs)) of Inl e \<Rightarrow> Inl e | Inr buf1 \<Rightarrow>
        ring_buffer_append buf1 (int (length xs)))"

fun write_batches :: "'a ring_buffer_t \<Rightarrow> 'a option list list \<Rightarrow> error + 'a ring_buffer_t" where
  "write_batches buf [] = Inr buf"
| "write_batches buf (xs # xss) =
     (case write_batch buf xs of Inl e \<Rightarrow> Inl e | Inr b \<Rightarrow> write_batches b xss)"

text \<open>
  Every batch of the sequence is at most as long as the span that
  \<open>ring_buffer_get_contiguous_span\<close> reports when the batch is written.
\<close>

fun within_spans :: "'a ring_buffer_t \<Rightarrow> 'a option list list \<Rightarrow> bool" where
  "within_spans buf [] = True"
| "within_spans buf (xs # xss) =
     (int (length xs) \<le> ring_buffer_get_contiguous_span buf \<and>
      (case write_batch buf xs of Inl e \<Rightarrow> True | Inr b \<Rightarrow> within_spans b xss))"

text \<open>Decoded video packets handed to \<open>poll_av_packet_video\<close> one after the other.\<close>

fun poll_video_packets ::
  "('s, 'f) decoder_t \<Rightarrow> ('s, 'f) packet list \<Rightarrow> error + ('s, 'f) decoder_t" where
  "poll_video_packets d [] = Inr d"
| "poll_video_packets d (p # ps) =
     (case poll_av_packet_video d p of Inl e \<Rightarrow> Inl e | Inr d' \<Rightarrow> poll_video_packets d' ps)"

subsection \<open>Inputs for the examples\<close>

text \<open>
  The decoder as \<open>open_av_data\<close> leaves it for an input whose only stream is a video
  stream, of index 0 and time base 1/20, and a target of 320 by 240 pixels at 5 frames
  per second: the audio ring keeps the capacity 0 it is first created with.
\<close>

definition video_only_decoder :: "('s, 'f) packet list \<Rightarrow> ('s, 'f) decoder_t" where
  "video_only_decoder input =
     \<lparr> audio_samples =
         \<lparr> data = [], item_size = 1, capacity = 0, head = 0, tail = 0, count = 0 \<rparr>,
       video_frames =
         \<lparr> data = replicate (nat BUFFERED_VIDEO_FRAMES) None, item_size = 115200,
           capacity = BUFFERED_VIDEO_FRAMES, head = 0, tail = 0, count = 0 \<rparr>,
       video_fps_num = 5, video_fps_den = 1,
       end_of_input = False,
       video_next_pts = Finite 0,
       audio_stream_index = - 1, video_stream_index = 0,
       time_base_num = 1, time_base_den = 20,
       format = input \<rparr>"

text \<open>A packet of stream \<open>i\<close> that decodes to the frame \<open>f\<close> with the timestamp \<open>t\<close>.\<close>

definition frame_packet :: "int \<Rightarrow> int \<Rightarrow> 'f \<Rightarrow> ('s, 'f) packet" where
  "frame_packet i t f =
     \<lparr> stream_index = i, avcodec_send_packet = 0, avcodec_receive_frame = 0,
       swr_get_out_samples = 0, swr_convert = [],
       frame_width = 640, frame_height = 480, frame_data0 = True,
       frame_pts = t, sws_scale = f \<rparr>"

section \<open>Lemmas\<close>

lemma smod_nonneg: "0 \<le> a \<Longrightarrow> 0 < b \<Longrightarrow> (a::int) smod b = a mod b"
  by (cases "a = 0") (simp_all add: signed_modulo_int_def)

lemma int32_id: "- 2147483648 \<le> x \<Longrightarrow> x < 2147483648 \<Longrightarrow> int32 x = x"
  by (simp add: int32_def)

lemma c_rem_pos: "0 < b \<Longrightarrow> c_rem a b = Inr (a smod b)"
  by (simp add: c_rem_def)

lemma ring_int32:
  assumes "ring_inv buf" "capacity buf \<le> 2 ^ 30" "- capacity buf \<le> n" "n \<le> capacity buf"
  shows "int32 (tail buf + n) = tail buf + n" "int32 (head buf + n) = head buf + n"
    "int32 (tail buf - n) = tail buf - n"
    "int32 (capacity buf - count buf) = capacity buf - count buf"
    "int32 (capacity buf - tail buf) = capacity buf - tail buf"
    "int32 (head buf - tail buf) = head buf - tail buf"
    "int32 (head buf + count buf) = head buf + count buf"
    "0 \<le> n \<Longrightarrow> n \<le> capacity buf - count buf \<Longrightarrow> int32 (count buf + n) = count buf + n"
    "0 \<le> n \<Longrightarrow> n \<le> count buf \<Longrightarrow> int32 (count buf - n) = count buf - n"
  using assms by (simp_all add: ring_inv_def int32_id)

lemma ring_inv_tail: "ring_inv buf \<Longrightarrow> tail buf = (head buf + count buf) mod capacity buf"
proof -
  assume a: "ring_inv buf"
  then have "(tail buf - head buf + head buf) mod capacity buf
      = (count buf + head buf) mod capacity buf"
    unfolding ring_inv_def by (intro mod_add_cong) simp_all
  with a show ?thesis by (simp add: ring_inv_def add.commute)
qed

lemma init_ring_buffer_ok:
  "0 < c \<Longrightarrow> \<exists>b :: 'a ring_buffer_t. init_ring_buffer (Suc s) c = Inr b \<and> ring_ok b
     \<and> capacity b = c \<and> count b = 0 \<and> item_size b = Suc s"
  if "c \<le> 2 ^ 30"
  using that by (simp add: init_ring_buffer_def ring_ok_def ring_inv_def)

lemma append_inv:
  assumes "ring_inv buf" "0 \<le> n" "n \<le> capacity buf - count buf" "0 < capacity buf"
    "capacity buf \<le> 2 ^ 30"
  shows "\<exists>b. ring_buffer_append buf n = Inr b \<and> ring_inv b \<and> capacity b = capacity buf
     \<and> head b = head buf \<and> count b = count buf + n \<and> data b = data buf"
proof -
  let ?c = "capacity buf"
  have t: "(tail buf + n) smod ?c = (tail buf + n) mod ?c"
    using assms by (intro smod_nonneg) (simp_all add: ring_inv_def)
  have "((tail buf + n) mod ?c - head buf) mod ?c = ((tail buf - head buf) + n) mod ?c"
    by (simp add: mod_diff_left_eq algebra_simps)
  also have "\<dots> = (count buf + n) mod ?c"
    using assms(1) unfolding ring_inv_def by (intro mod_add_cong) simp_all
  finally show ?thesis using assms t ring_int32 [OF assms(1,5), of n]
    by (simp add: ring_buffer_append_def ring_inv_def c_rem_pos)
qed

lemma remove_inv:
  assumes "ring_inv buf" "0 \<le> n" "n \<le> count buf" "0 < capacity buf"
    "capacity buf \<le> 2 ^ 30"
  shows "\<exists>b. ring_buffer_remove buf n = Inr b \<and> ring_inv b \<and> capacity b = capacity buf
     \<and> tail b = tail buf \<and> count b = count buf - n \<and> data b = data buf"
proof -
  let ?c = "capacity buf"
  have t: "(head buf + n) smod ?c = (head buf + n) mod ?c"
    using assms by (intro smod_nonneg) (simp_all add: ring_inv_def)
  have "(tail buf - (head buf + n) mod ?c) mod ?c = ((tail buf - head buf) - n) mod ?c"
    by (simp add: mod_diff_right_eq algebra_simps)
  also have "\<dots> = (count buf - n) mod ?c"
    using assms(1) unfolding ring_inv_def by (intro mod_diff_cong) simp_all
  finally show ?thesis using assms t ring_int32 [OF assms(1,5), of n]
    by (simp add: ring_buffer_remove_def ring_inv_def c_rem_pos)
qed

lemma apply_ring_op_inv:
  assumes "ring_inv buf" "0 < capacity buf" "ring_op_pre buf x" "capacity buf \<le> 2 ^ 30"
  shows "\<exists>b. apply_ring_op buf x = Inr b \<and> ring_inv b \<and> capacity b = capacity buf"
proof (cases x)
  case (Append n)
  with assms append_inv [of buf n] show ?thesis by auto
next
  case (Remove n)
  with assms remove_inv [of buf n] show ?thesis by auto
qed

lemma run_ring_ops_inv:
  "ring_inv buf \<Longrightarrow> 0 < capacity buf \<Longrightarrow> ring_ops_pre buf xs \<Longrightarrow> capacity buf \<le> 2 ^ 30 \<Longrightarrow>
     \<exists>bs. run_ring_ops buf xs = Inr bs \<and> length bs = length xs \<and>
          (\<forall>b \<in> set bs. ring_inv b \<and> capacity b = capacity buf)"
proof (induction xs arbitrary: buf)
  case Nil
  then show ?case by simp
next
  case (Cons x xs)
  from Cons.prems obtain b where b: "apply_ring_op buf x = Inr b" "ring_inv b"
      "capacity b = capacity buf"
    using apply_ring_op_inv [of buf x] by auto
  with Cons.prems have "ring_ops_pre b xs" "0 < capacity b" "capacity b \<le> 2 ^ 30" by simp_all
  from Cons.IH [OF b(2) this(2) this(1) this(3)] obtain bs where
    "run_ring_ops b xs = Inr bs" "length bs = length xs"
    "\<forall>b' \<in> set bs. ring_inv b' \<and> capacity b' = capacity b" by blast
  with b show ?case by simp
qed

subsection \<open>Writing at the tail\<close>

lemma mod_wrap:
  "0 \<le> x \<Longrightarrow> x < 2 * c \<Longrightarrow> (x::int) mod c = (if x < c then x else x - c)"
proof (cases "x < c")
  case True
  assume "0 \<le> x" with True show ?thesis by simp
next
  case False
  assume "x < 2 * c"
  with False have "(x - c) mod c = x - c" by (intro mod_pos_pos_trivial) simp_all
  with False show ?thesis by simp
qed

lemma nth_overwrite:
  assumes "dst + n \<le> length ds" "n \<le> length xs" "k < length ds"
  shows "(take dst ds @ take n xs @ drop (dst + n) ds) ! k
           = (if dst \<le> k \<and> k < dst + n then xs ! (k - dst) else ds ! k)"
  using assms by (auto simp: nth_append min_def)

lemma ring_ok_tail_cases:
  assumes "ring_ok buf"
  shows "tail buf = (if head buf + count buf < capacity buf then head buf + count buf
                     else head buf + count buf - capacity buf)"
proof -
  from assms have i: "ring_inv buf" by (simp add: ring_ok_def)
  then have "0 \<le> head buf + count buf" "head buf + count buf < 2 * capacity buf"
    by (simp_all add: ring_inv_def)
  from mod_wrap [OF this] ring_inv_tail [OF i] show ?thesis by simp
qed

lemma ring_ok_span:
  assumes "ring_ok buf"
  shows "ring_buffer_is_contiguous buf \<longleftrightarrow>
           head buf + count buf = tail buf \<or> head buf + count buf = capacity buf"
    and "ring_buffer_get_contiguous_span buf =
           (if head buf + count buf = tail buf \<or> head buf + count buf = capacity buf
            then capacity buf - tail buf else head buf - tail buf)"
proof -
  from assms have i: "ring_inv buf" "capacity buf \<le> 2 ^ 30" by (simp_all add: ring_ok_def)
  then have c: "- capacity buf \<le> 0" "0 \<le> capacity buf" by (simp_all add: ring_inv_def)
  note r = ring_int32 [OF i c]
  show 1: "ring_buffer_is_contiguous buf \<longleftrightarrow>
      head buf + count buf = tail buf \<or> head buf + count buf = capacity buf"
    by (simp only: ring_buffer_is_contiguous_def r)
  show "ring_buffer_get_contiguous_span buf =
      (if head buf + count buf = tail buf \<or> head buf + count buf = capacity buf
       then capacity buf - tail buf else head buf - tail buf)"
    by (simp only: ring_buffer_get_contiguous_span_def 1 r)
qed

lemma span_fits:
  assumes "ring_ok buf" "0 \<le> n" "n \<le> ring_buffer_get_contiguous_span buf"
    "n \<le> capacity buf - count buf"
  shows "tail buf + n \<le> capacity buf"
  using assms ring_ok_tail_cases [OF assms(1)]
  by (auto simp: ring_ok_span ring_ok_def ring_inv_def split: if_splits)

lemma get_tail_0: "ring_ok buf \<Longrightarrow> ring_buffer_get_tail buf 0 = Inr (tail buf)"
  by (auto simp: ring_buffer_get_tail_def ring_ok_def ring_inv_def smod_nonneg c_rem_pos int32_id)

lemma write_batch_ok:
  assumes ok: "ring_ok buf"
    and sp: "int (length xs) \<le> ring_buffer_get_contiguous_span buf"
    and fr: "int (length xs) \<le> capacity buf - count buf"
  shows "\<exists>b. write_batch buf xs = Inr b \<and> ring_ok b \<and> capacity b = capacity buf
           \<and> head b = head buf \<and> count b = count buf + int (length xs)
           \<and> item_size b = item_size buf
           \<and> live b = live buf @ xs"
proof -
  let ?n = "int (length xs)" and ?c = "capacity buf" and ?t = "tail buf" and ?h = "head buf"
  let ?d1 = "take (nat ?t) (data buf) @ take (nat ?n) xs @ drop (nat (?t + ?n)) (data buf)"
  let ?b1 = "buf\<lparr> data := ?d1 \<rparr>"
  from ok have inv: "ring_inv buf" and len: "length (data buf) = nat ?c" and cap: "?c \<le> 2 ^ 30"
    by (simp_all add: ring_ok_def)
  from inv have rng: "0 \<le> ?t" "?t < ?c" "0 \<le> ?h" "?h < ?c" "0 \<le> count buf" "count buf \<le> ?c"
    by (simp_all add: ring_inv_def)
  have fit: "?t + ?n \<le> ?c" using span_fits [OF ok _ sp fr] by simp
  have m: "memcpy_to buf ?t xs ?n = Inr ?b1"
    using fit rng len by (simp add: memcpy_to_def)
  have inv1: "ring_inv ?b1" using inv by (simp add: ring_inv_def)
  from append_inv [of ?b1 ?n] inv1 fr rng cap obtain b where
    b: "ring_buffer_append ?b1 ?n = Inr b" "ring_inv b" "capacity b = ?c" "head b = ?h"
      "count b = count buf + ?n" "data b = ?d1"
    by auto
  have isz: "item_size b = item_size buf"
    using b(1) by (auto simp: ring_buffer_append_def split: if_splits sum.splits)
  have w: "write_batch buf xs = Inr b"
    using get_tail_0 [OF ok] m b(1) by (simp add: write_batch_def)
  have len1: "length ?d1 = nat ?c" using fit rng len by simp
  have okb: "ring_ok b" using b len1 cap by (simp add: ring_ok_def)
  have tl: "?t = (if ?h + count buf < ?c then ?h + count buf else ?h + count buf - ?c)"
    by (rule ring_ok_tail_cases [OF ok])
  have nth1: "?d1 ! nat ((?h + int i) mod ?c)
      = (if i < nat (count buf) then data buf ! nat ((?h + int i) mod ?c)
         else xs ! (i - nat (count buf)))" if i: "i < nat (count buf + ?n)" for i
  proof -
    let ?s = "(?h + int i) mod ?c"
    have s: "?s = (if ?h + int i < ?c then ?h + int i else ?h + int i - ?c)"
      using rng fr i by (intro mod_wrap) auto
    have sr: "0 \<le> ?s" "?s < ?c" using rng by simp_all
    define sn where "sn = nat ?s"
    define tn where "tn = nat ?t"
    define cn where "cn = nat (count buf)"
    have sn: "?s = int sn" "sn < nat ?c" using sr by (simp_all add: sn_def)
    have tn: "?t = int tn" using rng by (simp add: tn_def)
    have cn: "count buf = int cn" using rng by (simp add: cn_def)
    have fitn: "tn + length xs \<le> length (data buf)" using fit tn len by linarith
    have "?d1 ! nat ?s = (take tn (data buf) @ take (length xs) xs
            @ drop (tn + length xs) (data buf)) ! sn"
      using sn tn by (simp add: nat_add_distrib)
    also have "\<dots> = (if tn \<le> sn \<and> sn < tn + length xs
            then xs ! (sn - tn) else data buf ! sn)"
      using fitn sn len by (intro nth_overwrite) simp_all
    also have "\<dots> = (if i < nat (count buf) then data buf ! nat ?s
         else xs ! (i - nat (count buf)))"
    proof (cases "i < cn")
      case True
      then have "\<not> (?t \<le> ?s \<and> ?s < ?t + ?n)"
        using s tl rng fit fr cn by (auto split: if_splits)
      then have "\<not> (tn \<le> sn \<and> sn < tn + length xs)"
        unfolding sn tn by linarith
      with True cn sn show ?thesis by auto
    next
      case False
      then have e: "?s = ?t + (int i - count buf)"
        using s tl rng fit fr i cn by (auto split: if_splits)
      then have "tn \<le> sn \<and> sn < tn + length xs" and "sn - tn = i - cn"
        using False i cn unfolding sn tn by linarith+
      with False cn sn show ?thesis by auto
    qed
    finally show ?thesis .
  qed
  have "live b = live buf @ xs"
  proof (rule nth_equalityI)
    show "length (live b) = length (live buf @ xs)"
      using b rng by (simp add: live_def nat_add_distrib)
  next
    fix i assume "i < length (live b)"
    then have i: "i < nat (count buf + ?n)" using b by (simp add: live_def)
    then have "live b ! i = ?d1 ! nat ((?h + int i) mod ?c)"
      using b by (simp add: live_def)
    also have "\<dots> = (live buf @ xs) ! i"
      using nth1 [OF i] by (simp add: live_def nth_append)
    finally show "live b ! i = (live buf @ xs) ! i" .
  qed
  with w okb b isz show ?thesis by blast
qed

lemma read_head_live:
  assumes "ring_ok buf" "i < nat (count buf)"
  shows "read_head buf (int i) = Inr (live buf ! i)"
proof -
  from assms have r: "0 \<le> head buf" "head buf < capacity buf" "0 < capacity buf"
    "length (data buf) = nat (capacity buf)" "0 < count buf"
    and i: "ring_inv buf" "capacity buf \<le> 2 ^ 30" "- capacity buf \<le> int i"
      "int i \<le> capacity buf"
    by (auto simp: ring_ok_def ring_inv_def)
  have "ring_buffer_get_head buf (int i)
      = Inr ((head buf + int i) smod capacity buf)"
    using assms r by (simp add: ring_buffer_get_head_def c_rem_pos ring_int32(2) [OF i])
  moreover have "(head buf + int i) smod capacity buf = (head buf + int i) mod capacity buf"
    using r by (intro smod_nonneg) simp_all
  moreover have "0 \<le> (head buf + int i) mod capacity buf"
    "(head buf + int i) mod capacity buf < capacity buf" using r by simp_all
  ultimately show ?thesis using assms r
    by (simp add: read_head_def load_item_def live_def)
qed

subsection \<open>Batches and the copy loop\<close>

lemma span_nonneg:
  assumes "ring_ok buf"
  shows "0 \<le> ring_buffer_get_contiguous_span buf"
    and "count buf < capacity buf \<Longrightarrow> 1 \<le> ring_buffer_get_contiguous_span buf"
  using assms ring_ok_tail_cases [OF assms]
  by (auto simp: ring_ok_span ring_ok_def ring_inv_def split: if_splits)

lemma write_batches_ok:
  "ring_ok buf \<Longrightarrow> within_spans buf bs \<Longrightarrow>
   int (length (concat bs)) \<le> capacity buf - count buf \<Longrightarrow>
     \<exists>b. write_batches buf bs = Inr b \<and> ring_ok b \<and> capacity b = capacity buf
        \<and> head b = head buf \<and> count b = count buf + int (length (concat bs))
        \<and> live b = live buf @ concat bs"
proof (induction bs arbitrary: buf)
  case Nil
  then show ?case by simp
next
  case (Cons xs bs)
  from Cons.prems have sp: "int (length xs) \<le> ring_buffer_get_contiguous_span buf"
    and fr: "int (length xs) \<le> capacity buf - count buf" by simp_all
  from write_batch_ok [OF Cons.prems(1) sp fr] obtain b1 where
    b1: "write_batch buf xs = Inr b1" "ring_ok b1" "capacity b1 = capacity buf"
      "head b1 = head buf" "count b1 = count buf + int (length xs)"
      "live b1 = live buf @ xs" by blast
  with Cons.prems have "within_spans b1 bs"
    "int (length (concat bs)) \<le> capacity b1 - count b1" by simp_all
  from Cons.IH [OF b1(2) this] obtain b where
    "write_batches b1 bs = Inr b" "ring_ok b" "capacity b = capacity b1"
      "head b = head b1" "count b = count b1 + int (length (concat bs))"
      "live b = live b1 @ concat bs" by blast
  with b1 show ?case by simp
qed

lemma live_empty: "count buf = 0 \<Longrightarrow> live buf = []"
  by (simp add: live_def)

lemma read_head_all:
  assumes "ring_ok buf"
  shows "map (read_head buf) (map int [0..<nat (count buf)]) = map Inr (live buf)"
proof (rule nth_equalityI)
  show "length (map (read_head buf) (map int [0..<nat (count buf)])) = length (map Inr (live buf))"
    by (simp add: live_def)
next
  fix i assume "i < length (map (read_head buf) (map int [0..<nat (count buf)]))"
  then have i: "i < nat (count buf)" by simp
  then have "i < length (live buf)" by (simp add: live_def)
  with i read_head_live [OF assms i]
  show "map (read_head buf) (map int [0..<nat (count buf)]) ! i = map Inr (live buf) ! i"
    by simp
qed

lemma memcpy_to_take:
  assumes "0 \<le> k" "k \<le> int (length src)"
  shows "memcpy_to buf p src k
           = memcpy_to buf p (take (nat k) src) (int (length (take (nat k) src)))"
proof -
  have l: "int (length (take (nat k) src)) = k" using assms by simp
  have "memcpy_to buf p src k = memcpy_to buf p (take (nat k) src) k"
    using assms l by (simp add: memcpy_to_def del: length_take)
  then show ?thesis by (simp only: l)
qed

lemma copy_samples_step:
  assumes "ring_ok buf" "xs \<noteq> []"
  defines "k \<equiv> (if ring_buffer_get_contiguous_span buf > int (length xs) then int (length xs)
            else ring_buffer_get_contiguous_span buf)"
  shows "copy_samples buf xs =
           (case write_batch buf (map Some (take (nat k) xs)) of
              Inl e \<Rightarrow> Some (Inl e)
            | Inr b \<Rightarrow> copy_samples b (drop (nat k) xs))"
proof -
  let ?ys = "map Some (take (nat k) xs)"
  have k0: "0 \<le> k" "k \<le> int (length xs)"
    using span_nonneg(1) [OF assms(1)] by (simp_all add: k_def)
  have l: "int (length ?ys) = k" using k0 by simp
  have m: "memcpy_to buf (tail buf) (map Some xs) k = memcpy_to buf (tail buf) ?ys k"
    using memcpy_to_take [of k "map Some xs" buf "tail buf"] k0 by (simp add: take_map)
  have pos: "0 < int (length xs)" using assms(2) by simp
  have 1: "copy_samples buf xs =
      (case memcpy_to buf (tail buf) (map Some xs) k of Inl e \<Rightarrow> Some (Inl e) | Inr buf1 \<Rightarrow>
         case ring_buffer_append buf1 k of Inl e \<Rightarrow> Some (Inl e) | Inr buf2 \<Rightarrow>
           copy_samples buf2 (drop (nat k) xs))"
    by (subst copy_samples.simps)
       (simp only: Let_def pos not_True_eq_False if_False get_tail_0 [OF assms(1)] sum.case k_def)
  have 2: "write_batch buf ?ys =
      (case memcpy_to buf (tail buf) ?ys k of Inl e \<Rightarrow> Inl e | Inr buf1 \<Rightarrow>
         ring_buffer_append buf1 k)"
    by (simp only: write_batch_def get_tail_0 [OF assms(1)] sum.case l)
  show ?thesis unfolding 1 2 m by (simp split: sum.splits)
qed

lemma copy_samples_ok:
  "ring_ok buf \<Longrightarrow> int (length xs) \<le> capacity buf - count buf \<Longrightarrow>
     \<exists>b. copy_samples buf xs = Some (Inr b) \<and> ring_ok b \<and> capacity b = capacity buf
        \<and> head b = head buf \<and> count b = count buf + int (length xs)
        \<and> live b = live buf @ map Some xs"
proof (induction "length xs" arbitrary: buf xs rule: less_induct)
  case less
  show ?case
  proof (cases "xs = []")
    case True
    then show ?thesis using less.prems by (subst copy_samples.simps) simp
  next
    case False
    define k where "k = (if ring_buffer_get_contiguous_span buf > int (length xs)
      then int (length xs) else ring_buffer_get_contiguous_span buf)"
    from False less.prems have "count buf < capacity buf" by (cases xs) auto
    from span_nonneg(2) [OF less.prems(1) this] False have k1: "1 \<le> k" "k \<le> int (length xs)"
      "k \<le> ring_buffer_get_contiguous_span buf"
      by (cases xs; simp add: k_def)+
    let ?ys = "map Some (take (nat k) xs)"
    have ly: "int (length ?ys) = k" using k1 by simp
    from write_batch_ok [of buf ?ys] less.prems k1 ly obtain b1 where
      b1: "write_batch buf ?ys = Inr b1" "ring_ok b1" "capacity b1 = capacity buf"
        "head b1 = head buf" "count b1 = count buf + k" "live b1 = live buf @ ?ys"
      by auto
    have s: "copy_samples buf xs = copy_samples b1 (drop (nat k) xs)"
      using copy_samples_step [OF less.prems(1) False] b1(1) by (simp add: k_def)
    have lt: "length (drop (nat k) xs) < length xs" using k1 False by simp
    have fr: "int (length (drop (nat k) xs)) \<le> capacity b1 - count b1"
      using b1 less.prems(2) k1 by simp
    from less.hyps [OF lt b1(2) fr] obtain b where
      b: "copy_samples b1 (drop (nat k) xs) = Some (Inr b)" "ring_ok b" "capacity b = capacity b1"
        "head b = head b1" "count b = count b1 + int (length (drop (nat k) xs))"
        "live b = live b1 @ map Some (drop (nat k) xs)" by blast
    have "?ys @ map Some (drop (nat k) xs) = map Some xs"
      by (simp add: map_append [symmetric] del: map_append)
    with s b b1 k1 show ?thesis by auto
  qed
qed


lemma copy_samples_split_example:
  assumes ok: "ring_ok buf" and fr: "int (length xs) \<le> capacity buf - count buf"
    and len: "length xs = 5000" and cont: "ring_buffer_is_contiguous buf"
    and room: "capacity buf - tail buf = 3000"
  shows "\<exists>b1 b2. write_batch buf (map Some (take 3000 xs)) = Inr b1
           \<and> write_batch b1 (map Some (drop 3000 xs)) = Inr b2
           \<and> copy_samples buf xs = Some (Inr b2)
           \<and> ring_buffer_get_contiguous_span buf = 3000
           \<and> count b1 = count buf + 3000 \<and> tail b1 = 0
           \<and> 2000 \<le> ring_buffer_get_contiguous_span b1
           \<and> count b2 = count buf + 5000 \<and> tail b2 = 2000"
proof -
  let ?c = "capacity buf"
  have sp: "ring_buffer_get_contiguous_span buf = 3000"
    using cont room by (simp add: ring_ok_span [OF ok])
  have ne: "xs \<noteq> []" using len by auto
  let ?y1 = "map Some (take 3000 xs)" and ?y2 = "map Some (drop 3000 xs)"
  have l1: "int (length ?y1) = 3000" and l2: "int (length ?y2) = 2000" using len by simp_all
  from write_batch_ok [of buf ?y1] ok fr sp l1 len obtain b1 where
    b1: "write_batch buf ?y1 = Inr b1" "ring_ok b1" "capacity b1 = ?c"
      "head b1 = head buf" "count b1 = count buf + 3000" by auto
  have s1: "copy_samples buf xs = copy_samples b1 (drop 3000 xs)"
    using copy_samples_step [OF ok ne] b1(1) sp len by simp
  from ok have inv: "ring_inv buf" by (simp add: ring_ok_def)
  have "(head buf + count buf) mod ?c = ?c - 3000"
    using ring_inv_tail [OF inv] room by simp
  then have "(head buf + count buf + 3000) mod ?c = (?c - 3000 + 3000) mod ?c"
    by (metis mod_add_left_eq)
  then have t1: "tail b1 = 0"
    using ring_inv_tail [of b1] b1 by (simp add: ring_ok_def add.assoc)
  have c5: "5000 \<le> ?c" using fr len inv by (simp add: ring_inv_def)
  have cont1: "head b1 + count b1 = capacity b1"
    using ring_ok_tail_cases [OF b1(2)] t1 b1 inv by (auto simp: ring_inv_def split: if_splits)
  then have sp1: "ring_buffer_get_contiguous_span b1 = ?c"
    using t1 b1 by (simp add: ring_ok_span [OF b1(2)])
  have ne2: "drop 3000 xs \<noteq> []" using len by simp
  from write_batch_ok [of b1 ?y2] b1 fr sp1 l2 len c5 obtain b2 where
    b2: "write_batch b1 ?y2 = Inr b2" "ring_ok b2" "capacity b2 = ?c"
      "head b2 = head buf" "count b2 = count buf + 5000" by auto
  have s2: "copy_samples b1 (drop 3000 xs) = copy_samples b2 []"
    using copy_samples_step [OF b1(2) ne2] b2(1) sp1 len c5 by simp
  have s3: "copy_samples b2 [] = Some (Inr b2)" by (subst copy_samples.simps) simp
  have "(head b1 + count b1 + 2000) mod ?c = (?c + 2000) mod ?c"
    using cont1 b1 by simp
  also have "\<dots> = 2000" using c5 fr len inv by (simp add: ring_inv_def)
  finally have t2: "tail b2 = 2000"
    using ring_inv_tail [of b2] b2 b1 by (simp add: ring_ok_def add.assoc)
  from b1 b2 s1 s2 s3 sp sp1 t1 t2 c5 show ?thesis by auto
qed

lemma read_head_appended:
  assumes "ring_ok buf" "ring_ok b" "live b = live buf @ ys"
  shows "map (read_head b) (map int [0..<nat (count b)])
           = map (read_head buf) (map int [0..<nat (count buf)]) @ map Inr ys"
  using read_head_all [OF assms(1)] read_head_all [OF assms(2)] assms(3) by simp

subsection \<open>Rounding\<close>

lemma rhe_of_int [simp]: "rhe (of_int n) = n"
  by (simp add: rhe_def)

lemma rhe_numeral [simp]: "rhe (numeral k) = numeral k" "rhe 0 = 0" "rhe 1 = 1"
  using rhe_of_int [of "numeral k"] rhe_of_int [of 0] rhe_of_int [of 1] by simp_all

lemma rhe_bounds: "\<lfloor>x\<rfloor> \<le> rhe x" "rhe x \<le> \<lfloor>x\<rfloor> + 1"
  by (simp_all add: rhe_def Let_def)

lemma rhe_mono: "x \<le> y \<Longrightarrow> rhe x \<le> rhe y"
proof -
  assume xy: "x \<le> y"
  then have f: "\<lfloor>x\<rfloor> \<le> \<lfloor>y\<rfloor>" by (rule floor_mono)
  show ?thesis
  proof (cases "\<lfloor>x\<rfloor> = \<lfloor>y\<rfloor>")
    case True
    with xy have "x - of_int \<lfloor>x\<rfloor> \<le> y - of_int \<lfloor>y\<rfloor>" by simp
    with True show ?thesis by (auto simp: rhe_def Let_def)
  next
    case False
    with f have "\<lfloor>x\<rfloor> + 1 \<le> \<lfloor>y\<rfloor>" by simp
    with rhe_bounds(2) [of x] rhe_bounds(1) [of y] show ?thesis by linarith
  qed
qed

lemma rhe_nonneg: "0 \<le> x \<Longrightarrow> 0 \<le> rhe x"
  using rhe_mono [of 0 x] by (simp add: rhe_def)

lemma expo_bounds:
  assumes "0 < x"
  shows "2 powi expo x \<le> x" and "x < 2 powi (expo x + 1)"
proof -
  have "2 powi expo x \<le> x \<and> x < 2 powi (expo x + 1)"
  proof (cases "1 \<le> x")
    case True
    define n where "n = \<lfloor>x\<rfloor>"
    have n: "0 < n" "of_int n \<le> x" "x < of_int n + 1"
      using True floor_correct [of x] by (simp_all add: n_def)
    define b where "b = bitlen n"
    from bitlen_bounds [OF n(1)] have bb: "2 ^ nat (b - 1) \<le> n" "n < 2 ^ nat b"
      by (simp_all add: b_def)
    have b1: "1 \<le> b" using n(1) by (simp add: b_def bitlen_alt_def)
    have e: "expo x = b - 1" using True by (simp add: expo_def b_def n_def)
    have "(2::rat) powi (b - 1) = 2 ^ nat (b - 1)" using b1 by (simp add: power_int_def)
    also have "\<dots> = of_int (2 ^ nat (b - 1))" by simp
    also have "\<dots> \<le> of_int n" using bb(1) by (simp only: of_int_le_iff)
    finally have 1: "2 powi (b - 1) \<le> x" using n(2) by simp
    from bb(2) have "n + 1 \<le> 2 ^ nat b" by simp
    then have "(of_int (n + 1) :: rat) \<le> of_int (2 ^ nat b)" by (simp only: of_int_le_iff)
    then have "x < 2 ^ nat b" using n(3) by simp
    also have "\<dots> = 2 powi b" using b1 by (simp add: power_int_def)
    finally have 2: "x < 2 powi b" .
    from 1 2 e show ?thesis by simp
  next
    case False
    define y where "y = 1 / x"
    have y: "1 < y" using False assms by (simp add: y_def)
    define n where "n = \<lceil>y\<rceil> - 1"
    have n: "0 < n" "of_int n < y" "y \<le> of_int n + 1"
      using y by (simp_all add: n_def less_ceiling_iff) linarith+
    define b where "b = bitlen n"
    from bitlen_bounds [OF n(1)] have bb: "2 ^ nat (b - 1) \<le> n" "n < 2 ^ nat b"
      by (simp_all add: b_def)
    have b1: "1 \<le> b" using n(1) by (simp add: b_def bitlen_alt_def)
    have e: "expo x = - b" using False by (simp add: expo_def b_def n_def y_def)
    have x: "x = 1 / y" using assms by (simp add: y_def)
    have "(2::rat) ^ nat (b - 1) = of_int (2 ^ nat (b - 1))" by simp
    also have "\<dots> \<le> of_int n" using bb(1) by (simp only: of_int_le_iff)
    also have "\<dots> < y" by (rule n(2))
    finally have "1 / y < 1 / 2 ^ nat (b - 1)" using y by (simp add: field_simps)
    also have "1 / 2 ^ nat (b - 1) = (2::rat) powi (- b + 1)"
      using b1 by (simp add: power_int_def field_simps nat_diff_distrib)
    finally have 2: "x < 2 powi (- b + 1)" by (simp add: x)
    from bb(2) have "n + 1 \<le> 2 ^ nat b" by simp
    then have "(of_int (n + 1) :: rat) \<le> of_int (2 ^ nat b)" by (simp only: of_int_le_iff)
    with n(3) have "y \<le> 2 ^ nat b" by simp
    then have "1 / 2 ^ nat b \<le> 1 / y" using y by (simp add: field_simps)
    moreover have "1 / 2 ^ nat b = (2::rat) powi (- b)"
      using b1 by (simp add: power_int_def field_simps)
    ultimately have 1: "2 powi (- b) \<le> x" by (simp add: x)
    from 1 2 e show ?thesis by simp
  qed
  then show "2 powi expo x \<le> x" and "x < 2 powi (expo x + 1)" by simp_all
qed

lemma powi_less_cancel: "(2::rat) powi a < 2 powi b \<Longrightarrow> a < b"
  by (rule ccontr) (simp add: not_less power_int_increasing not_le [symmetric])

lemma expo_unique:
  assumes "0 < x" "2 powi e \<le> x" "x < 2 powi (e + 1)"
  shows "expo x = e"
proof -
  from expo_bounds [OF assms(1)] assms(2,3)
  have 1: "(2::rat) powi expo x < 2 powi (e + 1)" and 2: "(2::rat) powi e < 2 powi (expo x + 1)"
    by simp_all
  from powi_less_cancel [OF 1] powi_less_cancel [OF 2] show ?thesis by simp
qed

lemma expo_mono:
  assumes "0 < x" "x \<le> y"
  shows "expo x \<le> expo y"
proof -
  from assms have "0 < y" by simp
  from expo_bounds(1) [OF assms(1)] expo_bounds(2) [OF this] assms(2)
  have "(2::rat) powi expo x < 2 powi (expo y + 1)" by simp
  then have "expo x < expo y + 1" by (rule powi_less_cancel)
  then show ?thesis by simp
qed

lemma scale_mono: "0 < a \<Longrightarrow> a \<le> b \<Longrightarrow> scale a \<le> scale b"
  using expo_mono [of a b] by (simp add: scale_def)

lemma scale_lower: "- 1074 \<le> scale a" "expo a - 52 \<le> scale a"
  by (simp_all add: scale_def)

lemma round_mag_nonneg: "0 \<le> a \<Longrightarrow> 0 \<le> round_mag a"
  by (simp add: round_mag_def rhe_nonneg)

lemma round_mag_grid_le:
  assumes "a \<le> of_int k * 2 powi s"
  shows "(of_int (rhe (a / 2 powi s)) :: rat) * 2 powi s \<le> of_int k * 2 powi s"
proof -
  have p: "(0::rat) < 2 powi s" by simp
  from assms have "a / 2 powi s \<le> of_int k" by (simp add: pos_divide_le_eq)
  from rhe_mono [OF this] have "rhe (a / 2 powi s) \<le> k" by simp
  then have "(of_int (rhe (a / 2 powi s)) :: rat) \<le> of_int k" by (simp only: of_int_le_iff)
  with p show ?thesis by (simp add: mult_right_mono)
qed

lemma round_mag_grid_ge:
  assumes "of_int k * 2 powi s \<le> a"
  shows "(of_int k :: rat) * 2 powi s \<le> of_int (rhe (a / 2 powi s)) * 2 powi s"
proof -
  have p: "(0::rat) < 2 powi s" by simp
  from assms have "of_int k \<le> a / 2 powi s" by (simp add: pos_le_divide_eq)
  from rhe_mono [OF this] have "k \<le> rhe (a / 2 powi s)" by simp
  then have "(of_int k :: rat) \<le> of_int (rhe (a / 2 powi s))" by (simp only: of_int_le_iff)
  with p show ?thesis by (simp add: mult_right_mono)
qed

lemma powi_as_int: "0 \<le> k \<Longrightarrow> (2::rat) powi k = of_int (2 ^ nat k)"
  by (simp add: power_int_def)

lemma powi_split: "(2::rat) powi (k + s) = of_int (2 ^ nat k) * 2 powi s" if "0 \<le> k"
  using that by (simp add: power_int_add powi_as_int)

lemma round_mag_mono:
  assumes "0 < a" "a \<le> b"
  shows "round_mag a \<le> round_mag b"
proof (cases "scale a = scale b")
  case True
  have "a / 2 powi scale b \<le> b / 2 powi scale b" using assms(2) by (simp add: divide_right_mono)
  from rhe_mono [OF this]
  have "(of_int (rhe (a / 2 powi scale b)) :: rat) \<le> of_int (rhe (b / 2 powi scale b))"
    by (simp only: of_int_le_iff)
  then show ?thesis by (simp add: round_mag_def True mult_right_mono)
next
  case False
  with scale_mono [OF assms] have lt: "scale a < scale b" by simp
  from assms have b: "0 < b" by simp
  have sb: "scale b = expo b - 52"
    using lt scale_lower(1) [of a] by (auto simp: scale_def max_def)
  have ea: "expo a + 1 \<le> expo b" using lt sb scale_lower(2) [of a] by simp
  define g :: rat where "g = 2 powi expo b"
  have ag: "a \<le> g"
  proof -
    have "a < 2 powi (expo a + 1)" by (rule expo_bounds(2) [OF assms(1)])
    also have "\<dots> \<le> 2 powi expo b" using ea by (simp add: power_int_increasing)
    finally show ?thesis by (simp add: g_def)
  qed
  have gb: "g \<le> b" using expo_bounds(1) [OF b] by (simp add: g_def)
  have k1: "0 \<le> expo b - scale a" using lt sb by simp
  have g1: "g = of_int (2 ^ nat (expo b - scale a)) * 2 powi scale a"
    using powi_split [OF k1, of "scale a"] by (simp add: g_def)
  have g2: "g = of_int (2 ^ 52) * 2 powi scale b"
    using powi_split [of 52 "scale b"] by (simp add: g_def sb)
  have "round_mag a \<le> g"
    unfolding round_mag_def using round_mag_grid_le [of a "2 ^ nat (expo b - scale a)" "scale a"]
      ag g1 by simp
  moreover have "g \<le> round_mag b"
    unfolding round_mag_def using round_mag_grid_ge [of "2 ^ 52" "scale b" b] gb g2 by simp
  ultimately show ?thesis by simp
qed

lemma round_mag_idem:
  assumes "0 < a"
  shows "round_mag (round_mag a) = round_mag a"
proof -
  define s where "s = scale a"
  define m where "m = rhe (a / 2 powi s)"
  define v :: rat where "v = of_int m * 2 powi s"
  have v: "round_mag a = v" by (simp add: round_mag_def v_def m_def s_def)
  have p: "(0::rat) < 2 powi s" by simp
  have m0: "0 \<le> m" using assms by (simp add: m_def rhe_nonneg)
  have grid: "round_mag v = v" if "scale v = s"
    using that by (simp add: round_mag_def v_def)
  show ?thesis
  proof (cases "m = 0")
    case True
    then have "v = 0" by (simp add: v_def)
    then have "round_mag v = v" by (simp add: round_mag_def rhe_def)
    then show ?thesis by (simp add: v)
  next
    case False
    with m0 have mpos: "0 < m" by simp
    then have vpos: "0 < v" by (simp add: v_def)
    have "a < 2 powi (expo a + 1)" by (rule expo_bounds(2) [OF assms])
    also have "\<dots> \<le> 2 powi (53 + s)"
      using scale_lower(2) [of a] by (simp add: s_def power_int_increasing)
    also have "\<dots> = of_int (2 ^ 53) * 2 powi s" using powi_split [of 53 s] by simp
    finally have "a \<le> of_int (2 ^ 53) * 2 powi s" by simp
    from round_mag_grid_le [OF this]
    have "of_int m * 2 powi s \<le> of_int (2 ^ 53) * (2::rat) powi s" by (simp add: m_def)
    with p have "(of_int m :: rat) \<le> of_int (2 ^ 53)" by (simp only: mult_le_cancel_right_pos)
    then have m53: "m \<le> 2 ^ 53" by (simp only: of_int_le_iff)
    show ?thesis
    proof (cases "m = 2 ^ 53")
      case True
      have v53: "v = 2 powi (53 + s)" using powi_split [of 53 s] True by (simp add: v_def)
      have "expo v = 53 + s"
        by (rule expo_unique [OF vpos]) (simp_all add: v53 power_int_strict_increasing)
      then have sv: "scale v = s + 1" using scale_lower(1) [of a] by (simp add: scale_def s_def)
      have "v = of_int (2 ^ 52) * 2 powi (s + 1)"
        using powi_split [of 52 "s + 1"] by (simp add: v53 add.commute add.left_commute)
      then have "round_mag v = v"
        unfolding round_mag_def sv by simp
      then show ?thesis by (simp add: v)
    next
      case False
      with m53 have "m + 1 \<le> 2 ^ 53" by simp
      then have "(of_int (m + 1) :: rat) \<le> of_int (2 ^ 53)" by (simp only: of_int_le_iff)
      then have "(of_int m :: rat) < of_int (2 ^ 53)" by simp
      with p have "v < of_int (2 ^ 53) * 2 powi s" by (simp add: v_def)
      also have "\<dots> = 2 powi (53 + s)" using powi_split [of 53 s] by simp
      finally have vlt: "v < 2 powi (53 + s)" .
      from expo_bounds(1) [OF vpos] vlt have "(2::rat) powi expo v < 2 powi (53 + s)" by simp
      from powi_less_cancel [OF this] have ev: "expo v \<le> 52 + s" by simp
      have "scale v = s"
      proof (cases "s = - 1074")
        case True
        with ev show ?thesis by (simp add: scale_def)
      next
        case False
        then have sa: "s = expo a - 52" using scale_lower(1) [of a] by (simp add: s_def scale_def)
        have "of_int (2 ^ 52) * 2 powi s = (2::rat) powi (52 + s)" using powi_split [of 52 s] by simp
        also have "\<dots> = 2 powi expo a" by (simp add: sa)
        also have "\<dots> \<le> a" by (rule expo_bounds(1) [OF assms])
        finally have "of_int (2 ^ 52) * 2 powi s \<le> a" .
        from round_mag_grid_ge [OF this]
        have "of_int (2 ^ 52) * 2 powi s \<le> v" by (simp add: v_def m_def)
        then have "(2::rat) powi (52 + s) \<le> v" using powi_split [of 52 s] by simp
        with expo_bounds(2) [OF vpos] have "(2::rat) powi (52 + s) < 2 powi (expo v + 1)" by simp
        from powi_less_cancel [OF this] ev have "expo v = 52 + s" by simp
        then show ?thesis using scale_lower(1) [of a] by (simp add: scale_def s_def)
      qed
      from grid [OF this] show ?thesis by (simp add: v)
    qed
  qed
qed

lemma d_less_irrefl [simp]: "\<not> d_less x x"
  by (cases x) simp_all

lemma round_mag_0 [simp]: "round_mag 0 = 0"
  by (simp add: round_mag_def)

lemma round_double_cases:
  assumes "x \<noteq> 0"
  obtains "round_double x = (if 0 < x then PInf else NInf)" "2 powi 1024 \<le> round_mag \<bar>x\<bar>"
  | "round_double x = Finite (if 0 < x then round_mag \<bar>x\<bar> else - round_mag \<bar>x\<bar>)"
    "round_mag \<bar>x\<bar> < 2 powi 1024"
  using assms by (cases "2 powi 1024 \<le> round_mag \<bar>x\<bar>") (simp_all add: round_double_def Let_def)

lemma round_double_Finite_pos:
  assumes "round_double p = Finite p" "0 < p"
  shows "round_mag p = p"
  using assms by (auto simp: round_double_def Let_def split: if_splits)

lemma round_double_Finite_neg:
  assumes "round_double p = Finite p" "p < 0"
  shows "round_mag (- p) = - p" "round_mag (- p) < 2 powi 1024"
  using assms by (auto simp: round_double_def Let_def abs_if split: if_splits)

lemma round_double_is_double: "is_double (round_double x)"
proof (cases "x = 0")
  case True
  then show ?thesis by (simp add: round_double_def is_double_def)
next
  case False
  then have a: "0 < \<bar>x\<bar>" by simp
  define v where "v = round_mag \<bar>x\<bar>"
  have v0: "0 \<le> v" by (simp add: v_def round_mag_nonneg)
  have vi: "round_mag v = v" using round_mag_idem [OF a] by (simp add: v_def)
  show ?thesis
  proof (cases "2 powi 1024 \<le> v")
    case True
    then show ?thesis using False by (simp add: round_double_def Let_def v_def is_double_def)
  next
    case big: False
    then have r: "round_double x = Finite (if 0 < x then v else - v)"
      using False by (simp add: round_double_def Let_def v_def)
    have "round_double (if 0 < x then v else - v) = Finite (if 0 < x then v else - v)"
      using v0 vi big by (cases "v = 0") (auto simp: round_double_def Let_def abs_if)
    with r show ?thesis by (simp add: is_double_def)
  qed
qed

lemma is_double_simps [simp]:
  "is_double PInf" "is_double NInf" "is_double NaN" "is_double (Finite 0)"
  by (simp_all add: is_double_def round_double_def)

lemma is_double_ops [simp]:
  "is_double (d_of_int i)" "is_double (d_add x y)" "is_double (d_mul x y)" "is_double (d_div x y)"
  by (cases x; cases y; simp add: d_of_int_def round_double_is_double)+

lemma round_double_ge:
  assumes p: "round_double p = Finite p" and le: "p \<le> y"
  shows "\<not> d_less (round_double y) (Finite p)"
proof -
  consider "y = 0" | "0 < y" | "y < 0" by linarith
  then show ?thesis
  proof cases
    case 1
    with le show ?thesis by (simp add: round_double_def)
  next
    case 2
    then have y0: "y \<noteq> 0" "\<bar>y\<bar> = y" by simp_all
    have "p \<le> round_mag y"
    proof (cases "0 < p")
      case True
      from round_mag_mono [OF True le] round_double_Finite_pos [OF p True] show ?thesis by simp
    next
      case False
      with round_mag_nonneg [of y] 2 show ?thesis by simp
    qed
    with 2 y0 show ?thesis by (cases rule: round_double_cases [OF y0(1)]) simp_all
  next
    case 3
    with le have pn: "p < 0" by simp
    from 3 have y0: "y \<noteq> 0" "\<bar>y\<bar> = - y" by simp_all
    from 3 le have "0 < - y" "- y \<le> - p" by simp_all
    from round_mag_mono [OF this] round_double_Finite_neg [OF p pn]
    have "round_mag (- y) \<le> - p" "round_mag (- y) < 2 powi 1024" by simp_all
    with 3 y0 show ?thesis by (cases rule: round_double_cases [OF y0(1)]) simp_all
  qed
qed

lemma d_add_nonneg_not_less:
  assumes "is_double p" "\<not> d_less f (Finite 0)"
  shows "\<not> d_less (d_add p f) p"
proof (cases p)
  case (Finite a)
  with assms(1) have a: "round_double a = Finite a" by (simp add: is_double_def)
  show ?thesis
  proof (cases f)
    case (Finite b)
    with assms(2) have "a \<le> a + b" by simp
    from round_double_ge [OF a this] show ?thesis using Finite \<open>p = Finite a\<close> by simp
  qed (use Finite assms(2) in simp_all)
qed (cases f; simp)+

lemma round_double_nonneg: "0 \<le> x \<Longrightarrow> \<not> d_less (round_double x) (Finite 0)"
proof -
  assume "0 \<le> x"
  moreover have "round_double 0 = Finite 0" by (simp add: round_double_def)
  ultimately show ?thesis using round_double_ge [of 0 x] by simp
qed

lemma d_div_nonneg:
  "\<not> d_less a (Finite 0) \<Longrightarrow> \<not> d_less b (Finite 0) \<Longrightarrow> \<not> d_less (d_div a b) (Finite 0)"
  by (cases a; cases b) (auto simp: round_double_nonneg)

lemma d_of_int_nonneg: "0 \<le> i \<Longrightarrow> \<not> d_less (d_of_int i) (Finite 0)"
  by (simp add: d_of_int_def round_double_nonneg)

lemma floor_rat_numeral:
  "\<lfloor>numeral a / numeral b :: rat\<rfloor> = numeral a div numeral b"
  "\<lfloor>- (numeral a / numeral b) :: rat\<rfloor> = - numeral a div numeral b"
  "\<lceil>numeral a / numeral b :: rat\<rceil> = - (- numeral a div numeral b)"
  using floor_divide_of_int_eq [of "numeral a" "numeral b", where ?'a = rat]
    floor_divide_of_int_eq [of "- numeral a" "numeral b", where ?'a = rat]
  by (simp_all add: ceiling_def)

lemma bitlen_numeral:
  "bitlen (numeral k) = bitlen (numeral k div 2) + 1" "bitlen 1 = 1"
  using compute_bitlen [of "numeral k"] compute_bitlen [of 1] by simp_all

lemmas double_eval = d_of_int_def round_double_def round_mag_def scale_def expo_def rhe_def
  floor_rat_numeral bitlen_numeral Let_def

subsection \<open>Video frames\<close>

lemmas video_eval = poll_av_packet_video_def emit_video_frame_def dup_frames.simps
  decode_frame_def frame_packet_def video_only_decoder_def BUFFERED_VIDEO_FRAMES_def
  ring_buffer_get_tail_def ring_buffer_append_def memcpy_to_def load_item_def
  c_rem_def int32_def signed_modulo_int_def live_def Let_def

lemma dup_frames_none:
  "\<not> d_less (d_add next_pts ft) pts \<Longrightarrow> dup_frames ft pts buf next_pts = Inr (buf, next_pts)"
  by (subst dup_frames.simps) simp

lemma emit_video_frame_plain:
  assumes ok: "ring_ok (video_frames d)"
    and room: "count (video_frames d) < capacity (video_frames d)"
    and nodup: "\<not> d_less (d_add (video_next_pts d) ft) pts"
  shows "\<exists>b. write_batch (video_frames d) [Some (sws_scale p)] = Inr b
          \<and> emit_video_frame d p ft pts
              = Inr (d\<lparr> video_frames := b, video_next_pts := d_add (video_next_pts d) ft \<rparr>)
          \<and> ring_ok b \<and> head b = head (video_frames d)
          \<and> count b = count (video_frames d) + 1
          \<and> live b = live (video_frames d) @ [Some (sws_scale p)]"
proof -
  let ?buf = "video_frames d" and ?xs = "[Some (sws_scale p)]"
  have sp: "int (length ?xs) \<le> ring_buffer_get_contiguous_span ?buf"
    using span_nonneg(2) [OF ok room] by simp
  have fr: "int (length ?xs) \<le> capacity ?buf - count ?buf" using room by simp
  from write_batch_ok [OF ok sp fr] obtain b where
    b: "write_batch ?buf ?xs = Inr b" "ring_ok b" "head b = head ?buf"
      "count b = count ?buf + 1" "live b = live ?buf @ ?xs" by auto
  have "emit_video_frame d p ft pts
      = Inr (d\<lparr> video_frames := b, video_next_pts := d_add (video_next_pts d) ft \<rparr>)"
    using b(1) by (auto simp: emit_video_frame_def dup_frames_none [OF nodup] write_batch_def
        split: sum.splits)
  with b show ?thesis by blast
qed

lemma read_head_first:
  assumes "ring_ok b" "live b = x # xs"
  shows "read_head b 0 = Inr x"
proof -
  have "length (live b) = nat (count b)" by (simp add: live_def)
  with assms(2) have "0 < nat (count b)" by simp
  from read_head_live [OF assms(1) this] assms(2) show ?thesis by simp
qed

lemma frame_time_nonneg:
  "0 \<le> n \<Longrightarrow> 0 \<le> m \<Longrightarrow> \<not> d_less (d_div (d_of_int m) (d_of_int n)) (Finite 0)"
  by (intro d_div_nonneg d_of_int_nonneg)

lemma poll_av_packet_video_drop:
  assumes "decode_frame packet"
    and "frame_width packet \<noteq> 0" and "frame_height packet \<noteq> 0" and "frame_data0 packet"
    and "count (video_frames d) \<noteq> 0"
    and "d_less (d_div (d_mul (d_of_int (frame_pts packet)) (d_of_int (time_base_num d)))
                   (d_of_int (time_base_den d))) (video_next_pts d)"
  shows "poll_av_packet_video d packet = Inr d"
  using assms by (simp add: poll_av_packet_video_def Let_def)

lemma poll_av_packet_video_accept:
  assumes ok: "ring_ok (video_frames d)" and ne: "count (video_frames d) \<noteq> 0"
    and room: "count (video_frames d) < capacity (video_frames d)"
    and pk: "decode_frame packet" "frame_width packet \<noteq> 0" "frame_height packet \<noteq> 0"
      "frame_data0 packet"
    and pts: "pts = d_div (d_mul (d_of_int (frame_pts packet)) (d_of_int (time_base_num d)))
                      (d_of_int (time_base_den d))"
    and ft: "frame_time = d_div (d_of_int (video_fps_den d)) (d_of_int (video_fps_num d))"
    and lo: "\<not> d_less pts (video_next_pts d)"
    and hi: "\<not> d_less (d_add (video_next_pts d) frame_time) pts"
  shows "\<exists>b. write_batch (video_frames d) [Some (sws_scale packet)] = Inr b
          \<and> poll_av_packet_video d packet
              = Inr (d\<lparr> video_frames := b,
                        video_next_pts := d_add (video_next_pts d) frame_time \<rparr>)
          \<and> count b = count (video_frames d) + 1
          \<and> map (read_head b) (map int [0..<nat (count b)])
              = map (read_head (video_frames d)) (map int [0..<nat (count (video_frames d))])
                @ [Inr (Some (sws_scale packet))]"
proof -
  from emit_video_frame_plain [OF ok room hi, of packet] obtain b where
    b: "write_batch (video_frames d) [Some (sws_scale packet)] = Inr b"
      "emit_video_frame d packet frame_time pts
         = Inr (d\<lparr> video_frames := b, video_next_pts := d_add (video_next_pts d) frame_time \<rparr>)"
      "ring_ok b" "count b = count (video_frames d) + 1"
      "live b = live (video_frames d) @ [Some (sws_scale packet)]"
    by auto
  have "poll_av_packet_video d packet
      = Inr (d\<lparr> video_frames := b, video_next_pts := d_add (video_next_pts d) frame_time \<rparr>)"
    using pk ne lo b(2) pts ft by (simp add: poll_av_packet_video_def Let_def)
  with b read_head_appended [OF ok b(3) b(5)] show ?thesis by auto
qed

lemma drop_example:
  "map_sum id (\<lambda>d. (live (video_frames d), video_next_pts d))
     (poll_video_packets (video_only_decoder [] :: (nat, nat) decoder_t)
        [frame_packet 0 0 0, frame_packet 0 1 1, frame_packet 0 2 2, frame_packet 0 3 3,
         frame_packet 0 4 4])
     = Inr ([Some 0, Some 4], Finite (3602879701896397 / 9007199254740992))"
  by (simp add: video_eval double_eval upt_rec)

subsection \<open>The exits of \<open>ensure_av_data\<close>\<close>

lemma poll_av_data_False:
  "poll_av_data d = Some (Inr (False, d')) \<Longrightarrow>
     end_of_input d' \<and> audio_samples d' = audio_samples d \<and> video_frames d' = video_frames d
     \<and> format d' = format d \<and> (end_of_input d \<or> format d = [])"
  by (auto simp: poll_av_data_def Let_def split: if_splits list.splits option.splits sum.splits)

lemma poll_av_data_suffix:
  "poll_av_data d = Some (Inr (True, d')) \<Longrightarrow> format d' = tl (format d) \<and> format d \<noteq> []"
  by (auto simp: poll_av_data_def Let_def split: if_splits list.splits option.splits sum.splits
      dest!: poll_av_packet_audio_format poll_av_packet_video_format)

lemma ensure_av_data_exit:
  "ensure_av_data d na nv = Some (Inr (b, d')) \<Longrightarrow>
     (\<exists>k. format d' = drop k (format d)) \<and>
     (if (na \<noteq> 0 \<and> count (audio_samples d') \<le> na) \<or> (nv \<noteq> 0 \<and> count (video_frames d') \<le> nv)
      then end_of_input d' \<and>
           (b \<longleftrightarrow> (na = 0 \<or> 0 < count (audio_samples d')) \<and> (nv = 0 \<or> 0 < count (video_frames d')))
      else b)"
proof (induction d na nv rule: ensure_av_data.induct)
  case (1 d na nv)
  show ?case
  proof (cases "(na \<noteq> 0 \<and> count (audio_samples d) \<le> na) \<or> (nv \<noteq> 0 \<and> count (video_frames d) \<le> nv)")
    case False
    with "1.prems" have "b" "d' = d" by (simp_all add: ensure_av_data.simps [of d])
    with False show ?thesis by (auto intro: exI [of _ 0])
  next
    case more: True
    then obtain r where r: "poll_av_data d = Some (Inr r)"
      using "1.prems" by (auto simp: ensure_av_data.simps [of d] split: option.splits sum.splits)
    obtain c d1 where cd: "r = (c, d1)" by (cases r)
    show ?thesis
    proof (cases c)
      case True
      with r cd more "1.prems" have e: "ensure_av_data d1 na nv = Some (Inr (b, d'))"
        by (simp add: ensure_av_data.simps [of d])
      from "1.IH" [OF more r refl cd [symmetric] _ e] True
      have ih: "(\<exists>k. format d' = drop k (format d1)) \<and>
     (if (na \<noteq> 0 \<and> count (audio_samples d') \<le> na) \<or> (nv \<noteq> 0 \<and> count (video_frames d') \<le> nv)
      then end_of_input d' \<and>
           (b \<longleftrightarrow> (na = 0 \<or> 0 < count (audio_samples d')) \<and> (nv = 0 \<or> 0 < count (video_frames d')))
      else b)" by simp
      from r cd True have "format d1 = drop 1 (format d)"
        by (auto dest!: poll_av_data_suffix simp: drop_Suc)
      with ih show ?thesis by (auto simp del: drop_eq_Nil drop_eq_Nil2)
    next
      case False
      with r cd more "1.prems" have b: "d' = d1"
        "b \<longleftrightarrow> (count (audio_samples d1) > 0 \<or> na = 0) \<and> (count (video_frames d1) > 0 \<or> nv = 0)"
        by (auto simp add: ensure_av_data.simps [of d])
      from r cd False have p: "end_of_input d1" "audio_samples d1 = audio_samples d"
        "video_frames d1 = video_frames d" "format d1 = format d"
        by (auto dest!: poll_av_data_False)
      from b p more show ?thesis by (auto intro: exI [of _ 0])
    qed
  qed
qed

lemma ensure_av_data_satisfied:
  assumes "\<not> ((na \<noteq> 0 \<and> count (audio_samples d) \<le> na) \<or> (nv \<noteq> 0 \<and> count (video_frames d) \<le> nv))"
  shows "ensure_av_data d na nv = Some (Inr (True, d))"
  by (subst ensure_av_data.simps) (simp only: assms if_False)

lemma ensure_av_data_exhausted:
  assumes "end_of_input d"
  shows "ensure_av_data d na nv =
     Some (Inr (if (na \<noteq> 0 \<and> count (audio_samples d) \<le> na) \<or> (nv \<noteq> 0 \<and> count (video_frames d) \<le> nv)
                then (0 < count (audio_samples d) \<or> na = 0) \<and> (0 < count (video_frames d) \<or> nv = 0)
                else True, d))"
proof (cases "(na \<noteq> 0 \<and> count (audio_samples d) \<le> na) \<or> (nv \<noteq> 0 \<and> count (video_frames d) \<le> nv)")
  case True
  have "poll_av_data d = Some (Inr (False, d))" using assms by (simp add: poll_av_data_def)
  then have "ensure_av_data d na nv = Some (Inr ((0 < count (audio_samples d) \<or> na = 0) \<and>
      (0 < count (video_frames d) \<or> nv = 0), d))"
    by (subst ensure_av_data.simps) (simp only: True if_True, simp)
  then show ?thesis by (simp only: True if_True)
next
  case False
  show ?thesis using ensure_av_data_satisfied [OF False] by (simp only: False if_False)
qed

section \<open>Ring operations keep the invariant\<close>

text \<open>
  C2 says that for every ring with a capacity above 0, every sequence of calls of
  \<open>ring_buffer_append\<close> and \<open>ring_buffer_remove\<close> that satisfy their preconditions keeps
  the invariant (\<open>0 \<le> count \<le> capacity\<close>, \<open>head\<close> and \<open>tail\<close> in \<open>[0, capacity)\<close>,
  \<open>(tail - head) mod capacity = count mod capacity\<close>). The code fails this when the capacity
  is near the largest \<open>int\<close>. On the ring \<open>init_ring_buffer\<close> creates with the capacity
  2147483647, appending 2147483646 items and removing them again leaves the ring empty,
  its head and tail in the last slot, and the invariant holds. \<open>ring_buffer_append (buf, 2)\<close>
  then satisfies its precondition, and the sum \<open>tail + count\<close> of the function leaves the
  range of \<open>int\<close>: the remainder by the capacity is \<open>- 1\<close>, and that is the tail the call
  leaves.
\<close>

theorem ring_buffer_append_overflow:
  "(init_ring_buffer 1 2147483647 :: error + nat ring_buffer_t)
     = Inr \<lparr> data = replicate 2147483647 None, item_size = 1, capacity = 2147483647,
             head = 0, tail = 0, count = 0 \<rparr>
   \<and> ring_inv \<lparr> data = replicate 2147483647 (None :: nat option), item_size = 1,
       capacity = 2147483647, head = 0, tail = 0, count = 0 \<rparr>
   \<and> ring_ops_pre \<lparr> data = replicate 2147483647 (None :: nat option), item_size = 1,
       capacity = 2147483647, head = 0, tail = 0, count = 0 \<rparr>
       [Append 2147483646, Remove 2147483646, Append 2]
   \<and> run_ring_ops \<lparr> data = replicate 2147483647 (None :: nat option), item_size = 1,
       capacity = 2147483647, head = 0, tail = 0, count = 0 \<rparr>
       [Append 2147483646, Remove 2147483646, Append 2]
     = Inr [\<lparr> data = replicate 2147483647 None, item_size = 1, capacity = 2147483647,
              head = 0, tail = 2147483646, count = 2147483646 \<rparr>,
            \<lparr> data = replicate 2147483647 None, item_size = 1, capacity = 2147483647,
              head = 2147483646, tail = 2147483646, count = 0 \<rparr>,
            \<lparr> data = replicate 2147483647 None, item_size = 1, capacity = 2147483647,
              head = 2147483646, tail = - 1, count = 2 \<rparr>]
   \<and> ring_inv \<lparr> data = replicate 2147483647 (None :: nat option), item_size = 1,
       capacity = 2147483647, head = 2147483646, tail = 2147483646, count = 0 \<rparr>
   \<and> \<not> ring_inv \<lparr> data = replicate 2147483647 (None :: nat option), item_size = 1,
       capacity = 2147483647, head = 2147483646, tail = - 1, count = 2 \<rparr>"
  by (simp add: init_ring_buffer_def ring_inv_def ring_buffer_append_def
      ring_buffer_remove_def c_rem_def int32_def signed_modulo_int_def)

text \<open>
  C2, for the capacities at which no sum overflows. Take a ring that has a capacity above
  0 and of at most \<open>2^30\<close> and satisfies the invariant, and any finite sequence of calls
  of \<open>ring_buffer_append\<close> and \<open>ring_buffer_remove\<close> in which every call satisfies its
  precondition. Then no call fails, and the ring after every call satisfies the invariant
  again, with the same capacity.
\<close>

theorem ring_ops_keep_invariant:
  assumes "ring_inv buf" and "0 < capacity buf" and "capacity buf \<le> 2 ^ 30"
    and "ring_ops_pre buf xs"
  shows "\<exists>bs. run_ring_ops buf xs = Inr bs \<and> length bs = length xs \<and>
           (\<forall>b \<in> set bs. ring_inv b \<and> capacity b = capacity buf)"
  using assms(1,2,4,3) by (rule run_ring_ops_inv)

theorem ring_ops_keep_invariant_witness:
  "ring_inv \<lparr> data = replicate 8 (None :: nat option), item_size = 2, capacity = 8,
       head = 6, tail = 6, count = 0 \<rparr>
   \<and> ring_ops_pre \<lparr> data = replicate 8 (None :: nat option), item_size = 2, capacity = 8,
       head = 6, tail = 6, count = 0 \<rparr> [Append 5, Remove 3, Append 6]
   \<and> (\<exists>bs. run_ring_ops \<lparr> data = replicate 8 (None :: nat option), item_size = 2, capacity = 8,
       head = 6, tail = 6, count = 0 \<rparr> [Append 5, Remove 3, Append 6] = Inr bs
         \<and> length bs = 3 \<and> list_all ring_inv bs \<and> map tail bs = [3, 3, 1]
         \<and> map head bs = [6, 1, 1] \<and> map count bs = [5, 2, 8])"
proof -
  let ?r = "\<lparr> data = replicate 8 (None :: nat option), item_size = 2, capacity = 8,
       head = 6, tail = 6, count = 0 \<rparr>"
  have h1: "ring_inv ?r" by (simp add: ring_inv_def)
  have h2: "0 < capacity ?r" by simp
  have h3: "capacity ?r \<le> 2 ^ 30" by simp
  have h4: "ring_ops_pre ?r [Append 5, Remove 3, Append 6]"
    by (simp add: ring_buffer_append_def ring_buffer_remove_def c_rem_def int32_def
        signed_modulo_int_def)
  have e: "map tail (projr (run_ring_ops ?r [Append 5, Remove 3, Append 6])) = [3, 3, 1]
     \<and> map head (projr (run_ring_ops ?r [Append 5, Remove 3, Append 6])) = [6, 1, 1]
     \<and> map count (projr (run_ring_ops ?r [Append 5, Remove 3, Append 6])) = [5, 2, 8]"
    by (simp add: ring_buffer_append_def ring_buffer_remove_def c_rem_def int32_def
        signed_modulo_int_def)
  from ring_ops_keep_invariant [OF h1 h2 h3 h4] obtain bs where
    bs: "run_ring_ops ?r [Append 5, Remove 3, Append 6] = Inr bs" "length bs = 3"
      "\<forall>b \<in> set bs. ring_inv b \<and> capacity b = capacity ?r" by auto
  from bs(3) have "list_all ring_inv bs" by (simp add: list_all_iff)
  with bs e h1 h4 show ?thesis by auto
qed

section \<open>Writing through spans and reading back\<close>

text \<open>
  C6 says that for every ring with a capacity above 0 that is empty, its head and tail at
  any position, \<open>N \<le> capacity\<close> items written in batches no longer than the span
  \<open>ring_buffer_get_contiguous_span\<close> reports are read back in their order through
  \<open>ring_buffer_get_head (buf, i)\<close> for \<open>i\<close> from 0 to \<open>N - 1\<close>. The code fails this when the
  capacity is near the largest \<open>int\<close>. The ring below has the capacity 2147483647 and is
  empty, its head and tail in the last slot. Three items are written, one in the last slot
  and two in the slots 0 and 1, each batch within the span reported for it. Reading the
  third item back, the sum \<open>head + offset\<close> of \<open>ring_buffer_get_head\<close> leaves the range of
  \<open>int\<close> and the remainder is \<open>- 1\<close>: the pointer returned is one item in front of the
  block, not slot 1.
\<close>

theorem ring_buffer_get_head_overflow:
  "ring_inv \<lparr> data = replicate 2147483647 (None :: nat option), item_size = 1,
       capacity = 2147483647, head = 2147483646, tail = 2147483646, count = 0 \<rparr>
   \<and> int (length (replicate 2147483647 (None :: nat option))) = 2147483647
   \<and> within_spans \<lparr> data = replicate 2147483647 (None :: nat option), item_size = 1,
       capacity = 2147483647, head = 2147483646, tail = 2147483646, count = 0 \<rparr>
       [[Some 1], [Some 2, Some 3]]
   \<and> write_batches \<lparr> data = replicate 2147483647 (None :: nat option), item_size = 1,
       capacity = 2147483647, head = 2147483646, tail = 2147483646, count = 0 \<rparr>
       [[Some 1], [Some 2, Some 3]]
     = Inr \<lparr> data = [Some 2, Some 3] @ replicate 2147483644 None @ [Some 1], item_size = 1,
       capacity = 2147483647, head = 2147483646, tail = 2, count = 3 \<rparr>
   \<and> ring_buffer_get_head
       \<lparr> data = [Some 2, Some 3] @ replicate 2147483644 (None :: nat option) @ [Some 1],
         item_size = 1, capacity = 2147483647, head = 2147483646, tail = 2, count = 3 \<rparr> 2
     = Inr (- 1)
   \<and> read_head
       \<lparr> data = [Some 2, Some 3] @ replicate 2147483644 (None :: nat option) @ [Some 1],
         item_size = 1, capacity = 2147483647, head = 2147483646, tail = 2, count = 3 \<rparr> 2
     = Inl OutOfBounds"
  by (simp add: ring_inv_def write_batch_def read_head_def load_item_def
      ring_buffer_get_tail_def ring_buffer_get_head_def memcpy_to_def ring_buffer_append_def
      ring_buffer_get_contiguous_span_def ring_buffer_is_contiguous_def
      c_rem_def int32_def signed_modulo_int_def)

text \<open>
  C6, for the capacities at which no sum overflows. Take a ring with a capacity above 0
  and of at most \<open>2^30\<close> that is empty, its head and tail at any position of the block,
  and a sequence of batches of items, \<open>N\<close> items in all with \<open>N \<le> capacity\<close>, each batch no
  longer than the value \<open>ring_buffer_get_contiguous_span\<close> reports when the batch comes to
  be written. Writing every batch at \<open>ring_buffer_get_tail (buf, 0)\<close> and committing it with
  \<open>ring_buffer_append\<close> fails nowhere, and reading at \<open>ring_buffer_get_head (buf, i)\<close> for
  \<open>i\<close> from 0 to \<open>N - 1\<close> then gives back the items in the order they were written, also
  when they wrap around the end of the block.
\<close>

theorem span_write_read_roundtrip:
  assumes "ring_ok buf" and "capacity buf \<le> 2 ^ 30" and "count buf = 0"
    and "int (length (concat bs)) \<le> capacity buf"
    and "within_spans buf bs"
  shows "\<exists>b. write_batches buf bs = Inr b \<and> count b = int (length (concat bs))
           \<and> head b = head buf
           \<and> map (read_head b) (map int [0..<length (concat bs)]) = map Inr (concat bs)"
proof -
  from assms have "int (length (concat bs)) \<le> capacity buf - count buf" by simp
  from write_batches_ok [OF assms(1) assms(5) this] assms(3) obtain b where
    b: "write_batches buf bs = Inr b" "ring_ok b" "head b = head buf"
      "count b = int (length (concat bs))" "live b = concat bs"
    by (auto simp: live_empty)
  from read_head_all [OF b(2)] b show ?thesis by simp
qed

theorem span_write_read_roundtrip_witness:
  "ring_ok \<lparr> data = [None, None, None, None, None, None, None, None :: nat option],
       item_size = 2, capacity = 8, head = 5, tail = 5, count = 0 \<rparr>
   \<and> within_spans \<lparr> data = [None, None, None, None, None, None, None, None :: nat option],
       item_size = 2, capacity = 8, head = 5, tail = 5, count = 0 \<rparr>
       [[Some 10, Some 11, Some 12], [Some 13, Some 14], [Some 15]]
   \<and> write_batches \<lparr> data = [None, None, None, None, None, None, None, None :: nat option],
       item_size = 2, capacity = 8, head = 5, tail = 5, count = 0 \<rparr>
       [[Some 10, Some 11, Some 12], [Some 13, Some 14], [Some 15]]
     = Inr \<lparr> data = [Some 13, Some 14, Some 15, None, None, Some 10, Some 11, Some 12],
       item_size = 2, capacity = 8, head = 5, tail = 3, count = 6 \<rparr>
   \<and> map (read_head \<lparr> data = [Some 13, Some 14, Some 15, None, None, Some 10, Some 11, Some 12 :: nat option],
       item_size = 2, capacity = 8, head = 5, tail = 3, count = 6 \<rparr>) (map int [0..<6])
     = [Inr (Some 10), Inr (Some 11), Inr (Some 12), Inr (Some 13), Inr (Some 14), Inr (Some 15)]"
proof -
  let ?r = "\<lparr> data = [None, None, None, None, None, None, None, None :: nat option],
       item_size = 2, capacity = 8, head = 5, tail = 5, count = 0 \<rparr>"
  let ?bs = "[[Some 10, Some 11, Some 12], [Some 13, Some 14], [Some (15::nat)]]"
  have h1: "ring_ok ?r" by (simp add: ring_ok_def ring_inv_def)
  have h2: "count ?r = 0" by simp
  have h3: "int (length (concat ?bs)) \<le> capacity ?r" by simp
  have h5: "capacity ?r \<le> 2 ^ 30" by simp
  have h4: "within_spans ?r ?bs"
    by (simp add: write_batch_def ring_buffer_get_tail_def memcpy_to_def ring_buffer_append_def
        ring_buffer_get_contiguous_span_def ring_buffer_is_contiguous_def
        c_rem_def int32_def signed_modulo_int_def)
  have w: "write_batches ?r ?bs
     = Inr \<lparr> data = [Some 13, Some 14, Some 15, None, None, Some 10, Some 11, Some 12],
       item_size = 2, capacity = 8, head = 5, tail = 3, count = 6 \<rparr>"
    by (simp add: write_batch_def ring_buffer_get_tail_def memcpy_to_def ring_buffer_append_def
        c_rem_def int32_def signed_modulo_int_def)
  from span_write_read_roundtrip [OF h1 h5 h2 h3 h4] w h1 h4 show ?thesis
    by (simp add: upt_rec)
qed

section \<open>The copy loop of \<open>poll_av_packet_audio\<close>\<close>

text \<open>
  C9. Take an audio ring with a capacity above 0 that satisfies the invariant (and has
  its block, and a capacity of at most \<open>2^30\<close>: that of the audio ring of the decoder is
  \<open>BUFFERED_AUDIO_SAMPLES\<close>), and a resampled chunk of \<open>n\<close> samples with
  \<open>n \<le> capacity - count\<close>. When the ring is not full, its contiguous span is at least 1. The copy loop terminates without an error; afterwards
  the head is where it was, \<open>count\<close> has grown by exactly \<open>n\<close>, and the ring holds what it
  held before followed by the \<open>n\<close> samples in their order. A chunk of 5000 samples that
  meets the end of the block after 3000 slots is appended as 3000 samples, which takes
  the tail to 0, and then 2000 samples (the first span is 3000; the second one has room
  for the 2000 samples that are left).
\<close>

theorem copy_samples_appends:
  assumes "ring_ok buf" and "int (length xs) \<le> capacity buf - count buf"
  shows "(count buf < capacity buf \<longrightarrow> 1 \<le> ring_buffer_get_contiguous_span buf)
    \<and> (\<exists>b. copy_samples buf xs = Some (Inr b) \<and> ring_ok b \<and> capacity b = capacity buf
          \<and> head b = head buf \<and> count b = count buf + int (length xs)
          \<and> map (read_head b) (map int [0..<nat (count b)])
              = map (read_head buf) (map int [0..<nat (count buf)]) @ map (\<lambda>x. Inr (Some x)) xs)
    \<and> (length xs = 5000 \<and> ring_buffer_is_contiguous buf \<and> capacity buf - tail buf = 3000 \<longrightarrow>
         (\<exists>b1 b2. write_batch buf (map Some (take 3000 xs)) = Inr b1
           \<and> write_batch b1 (map Some (drop 3000 xs)) = Inr b2
           \<and> copy_samples buf xs = Some (Inr b2)
           \<and> ring_buffer_get_contiguous_span buf = 3000
           \<and> count b1 = count buf + 3000 \<and> tail b1 = 0
           \<and> 2000 \<le> ring_buffer_get_contiguous_span b1
           \<and> count b2 = count buf + 5000 \<and> tail b2 = 2000))"
proof (intro conjI impI)
  assume "count buf < capacity buf"
  then show "1 \<le> ring_buffer_get_contiguous_span buf" by (rule span_nonneg(2) [OF assms(1)])
next
  from copy_samples_ok [OF assms] obtain b where
    b: "copy_samples buf xs = Some (Inr b)" "ring_ok b" "capacity b = capacity buf"
      "head b = head buf" "count b = count buf + int (length xs)"
      "live b = live buf @ map Some xs" by blast
  from read_head_appended [OF assms(1) b(2) b(6)] b
  show "\<exists>b. copy_samples buf xs = Some (Inr b) \<and> ring_ok b \<and> capacity b = capacity buf
          \<and> head b = head buf \<and> count b = count buf + int (length xs)
          \<and> map (read_head b) (map int [0..<nat (count b)])
              = map (read_head buf) (map int [0..<nat (count buf)]) @ map (\<lambda>x. Inr (Some x)) xs"
    by (auto simp: comp_def)
next
  assume "length xs = 5000 \<and> ring_buffer_is_contiguous buf \<and> capacity buf - tail buf = 3000"
  then show "\<exists>b1 b2. write_batch buf (map Some (take 3000 xs)) = Inr b1
           \<and> write_batch b1 (map Some (drop 3000 xs)) = Inr b2
           \<and> copy_samples buf xs = Some (Inr b2)
           \<and> ring_buffer_get_contiguous_span buf = 3000
           \<and> count b1 = count buf + 3000 \<and> tail b1 = 0
           \<and> 2000 \<le> ring_buffer_get_contiguous_span b1
           \<and> count b2 = count buf + 5000 \<and> tail b2 = 2000"
    using copy_samples_split_example [OF assms] by blast
qed

theorem copy_samples_appends_witness:
  "ring_ok \<lparr> data = [None, None, None, None, Some 9, None, None, None :: nat option],
       item_size = 4, capacity = 8, head = 4, tail = 5, count = 1 \<rparr>
   \<and> copy_samples \<lparr> data = [None, None, None, None, Some 9, None, None, None :: nat option],
       item_size = 4, capacity = 8, head = 4, tail = 5, count = 1 \<rparr> [1, 2, 3, 4, 5]
     = Some (Inr \<lparr> data = [Some 4, Some 5, None, None, Some 9, Some 1, Some 2, Some 3],
       item_size = 4, capacity = 8, head = 4, tail = 2, count = 6 \<rparr>)
   \<and> ring_ok \<lparr> data = replicate 16384 (None :: nat option), item_size = 4,
       capacity = BUFFERED_AUDIO_SAMPLES, head = 13384, tail = 13384, count = 0 \<rparr>
   \<and> (\<exists>b1 b2. write_batch \<lparr> data = replicate 16384 (None :: nat option), item_size = 4,
          capacity = BUFFERED_AUDIO_SAMPLES, head = 13384, tail = 13384, count = 0 \<rparr>
          (map Some (take 3000 (replicate 5000 7))) = Inr b1
        \<and> write_batch b1 (map Some (drop 3000 (replicate 5000 7))) = Inr b2
        \<and> copy_samples \<lparr> data = replicate 16384 (None :: nat option), item_size = 4,
          capacity = BUFFERED_AUDIO_SAMPLES, head = 13384, tail = 13384, count = 0 \<rparr>
          (replicate 5000 7) = Some (Inr b2)
        \<and> count b1 = 3000 \<and> tail b1 = 0 \<and> count b2 = 5000 \<and> tail b2 = 2000)"
proof -
  let ?r = "\<lparr> data = [None, None, None, None, Some 9, None, None, None :: nat option],
       item_size = 4, capacity = 8, head = 4, tail = 5, count = 1 \<rparr>"
  let ?q = "\<lparr> data = replicate 16384 (None :: nat option), item_size = 4,
       capacity = BUFFERED_AUDIO_SAMPLES, head = 13384, tail = 13384, count = 0 \<rparr>"
  have h1: "ring_ok ?r" by (simp add: ring_ok_def ring_inv_def)
  have h2: "int (length [1, 2, 3, 4, 5 :: nat]) \<le> capacity ?r - count ?r" by simp
  from copy_samples_appends [OF h1 h2] obtain b where
    b: "copy_samples ?r [1, 2, 3, 4, 5] = Some (Inr b)" by blast
  have c: "copy_samples ?r [1, 2, 3, 4, 5]
     = Some (Inr \<lparr> data = [Some 4, Some 5, None, None, Some 9, Some 1, Some 2, Some 3],
       item_size = 4, capacity = 8, head = 4, tail = 2, count = 6 \<rparr>)"
    by (simp add: copy_samples.simps ring_buffer_get_tail_def memcpy_to_def
        ring_buffer_append_def ring_buffer_get_contiguous_span_def ring_buffer_is_contiguous_def
        c_rem_def int32_def signed_modulo_int_def)
  have g1: "ring_ok ?q" by (simp add: ring_ok_def ring_inv_def BUFFERED_AUDIO_SAMPLES_def)
  have g2: "int (length (replicate 5000 (7::nat))) \<le> capacity ?q - count ?q"
    by (simp add: BUFFERED_AUDIO_SAMPLES_def)
  have g3: "length (replicate 5000 (7::nat)) = 5000 \<and> ring_buffer_is_contiguous ?q
      \<and> capacity ?q - tail ?q = 3000"
    by (simp add: BUFFERED_AUDIO_SAMPLES_def ring_buffer_is_contiguous_def int32_def)
  have e: "\<exists>b1 b2. write_batch ?q (map Some (take 3000 (replicate 5000 7))) = Inr b1
           \<and> write_batch b1 (map Some (drop 3000 (replicate 5000 7))) = Inr b2
           \<and> copy_samples ?q (replicate 5000 7) = Some (Inr b2)
           \<and> ring_buffer_get_contiguous_span ?q = 3000
           \<and> count b1 = count ?q + 3000 \<and> tail b1 = 0
           \<and> 2000 \<le> ring_buffer_get_contiguous_span b1
           \<and> count b2 = count ?q + 5000 \<and> tail b2 = 2000"
    by (rule mp [OF conjunct2 [OF conjunct2 [OF copy_samples_appends [OF g1 g2]]] g3])
  then obtain b1 b2 where
    bb: "write_batch ?q (map Some (take 3000 (replicate 5000 7))) = Inr b1"
      "write_batch b1 (map Some (drop 3000 (replicate 5000 7))) = Inr b2"
      "copy_samples ?q (replicate 5000 7) = Some (Inr b2)"
      "count b1 = count ?q + 3000" "tail b1 = 0" "count b2 = count ?q + 5000" "tail b2 = 2000"
    by (elim exE conjE)
  have cq: "count ?q = 0" by simp
  have "\<exists>b1 b2. write_batch ?q (map Some (take 3000 (replicate 5000 7))) = Inr b1
        \<and> write_batch b1 (map Some (drop 3000 (replicate 5000 7))) = Inr b2
        \<and> copy_samples ?q (replicate 5000 7) = Some (Inr b2)
        \<and> count b1 = 3000 \<and> tail b1 = 0 \<and> count b2 = 5000 \<and> tail b2 = 2000"
    apply (rule exI [of _ b1], rule exI [of _ b2])
    using bb unfolding cq by (intro conjI) simp_all
  with h1 c g1 show ?thesis by (intro conjI)
qed

section \<open>The pointer \<open>ring_buffer_get_tail\<close> returns\<close>

text \<open>
  C7 says that for a ring with a capacity above 0 that satisfies the invariant, and an
  offset from 0 to \<open>count\<close>, \<open>ring_buffer_get_tail\<close> returns the address of the slot of
  index \<open>(tail - offset) mod capacity\<close>, with the mathematical modulus, also when the
  offset is above \<open>tail\<close>. The code fails this: the ring below, of capacity 32, satisfies
  the invariant and holds 5 frames, the newest of them in slot 31, and its tail has
  wrapped around to 0. For the offset 1 the operator \<open>%\<close> yields \<open>- 1\<close>, so the function
  returns the address one item in front of the block, and not that of slot
  \<open>(0 - 1) mod 32 = 31\<close>. \<open>poll_av_packet_video\<close> calls the function with the offset 1
  to duplicate the last frame: with this video ring, a frame of 0.5 seconds that arrives
  when \<open>video_next_pts\<close> is 0.2 makes it copy a frame from outside the block.
\<close>

theorem ring_buffer_get_tail_before_block:
  "ring_inv \<lparr> data = replicate 27 None @ [Some 1, Some 2, Some 3, Some 4, Some (5::nat)],
       item_size = 115200, capacity = 32, head = 27, tail = 0, count = 5 \<rparr>
   \<and> ring_buffer_get_tail
        \<lparr> data = replicate 27 None @ [Some 1, Some 2, Some 3, Some 4, Some (5::nat)],
          item_size = 115200, capacity = 32, head = 27, tail = 0, count = 5 \<rparr> 1 = Inr (- 1)
   \<and> (0 - 1) mod 32 = (31 :: int)
   \<and> poll_av_packet_video
        ((video_only_decoder [] :: (nat, nat) decoder_t)
           \<lparr> video_frames :=
               \<lparr> data = replicate 27 None @ [Some 1, Some 2, Some 3, Some 4, Some 5],
                 item_size = 115200, capacity = 32, head = 27, tail = 0, count = 5 \<rparr>,
             video_next_pts := d_div (d_of_int 1) (d_of_int 5) \<rparr>) (frame_packet 0 10 6)
       = Inl OutOfBounds"
  by (simp add: ring_inv_def video_eval double_eval)

section \<open>A ring of capacity 0\<close>

text \<open>
  C8 says that every ring operation on a ring created with capacity 0 is a no-op, and names
  \<open>ring_buffer_append (buf, 0)\<close> and \<open>ring_buffer_remove (buf, 0)\<close>: they should return
  without a fault and leave \<open>head\<close>, \<open>tail\<close> and \<open>count\<close> as they are. Both calls pass
  their assertion and then take a remainder by the capacity, which is 0: they do not
  return.
\<close>

theorem zero_capacity_append_faults:
  "(init_ring_buffer 1 0 :: error + nat ring_buffer_t)
     = Inr \<lparr> data = [], item_size = 1, capacity = 0, head = 0, tail = 0, count = 0 \<rparr>
   \<and> ring_buffer_append \<lparr> data = ([] :: nat option list), item_size = 1, capacity = 0,
        head = 0, tail = 0, count = 0 \<rparr> 0 = Inl DivByZero
   \<and> ring_buffer_remove \<lparr> data = ([] :: nat option list), item_size = 1, capacity = 0,
        head = 0, tail = 0, count = 0 \<rparr> 0 = Inl DivByZero"
  by (simp add: init_ring_buffer_def ring_buffer_append_def ring_buffer_remove_def
      c_rem_def int32_def)

text \<open>
  C8, as the code has it. On the ring that \<open>init_ring_buffer\<close> creates with capacity 0,
  for every item size above 0: \<open>ring_buffer_append\<close> and \<open>ring_buffer_remove\<close> fail their
  assertion for every count but 0, and divide by zero for the count 0;
  \<open>ring_buffer_get_tail\<close> fails its assertion for every offset above 0 and divides by zero
  otherwise; \<open>ring_buffer_get_head\<close> fails its assertion for every offset. None of them
  returns, so none changes the ring. \<open>ring_buffer_is_contiguous\<close> returns true,
  \<open>ring_buffer_get_contiguous_span\<close> returns 0 and \<open>destroy_ring_buffer\<close> changes nothing.
\<close>

theorem zero_capacity_ring_operations:
  "\<exists>z :: 'a ring_buffer_t. init_ring_buffer (Suc s) 0 = Inr z
    \<and> ring_buffer_append z n = Inl (if n = 0 then DivByZero else AssertFail)
    \<and> ring_buffer_remove z n = Inl (if n = 0 then DivByZero else AssertFail)
    \<and> ring_buffer_get_tail z offset = Inl (if offset \<le> 0 then DivByZero else AssertFail)
    \<and> ring_buffer_get_head z offset = Inl AssertFail
    \<and> ring_buffer_is_contiguous z
    \<and> ring_buffer_get_contiguous_span z = 0
    \<and> destroy_ring_buffer z = z"
  by (auto simp: init_ring_buffer_def ring_buffer_append_def ring_buffer_remove_def
      ring_buffer_get_tail_def ring_buffer_get_head_def ring_buffer_is_contiguous_def
      ring_buffer_get_contiguous_span_def destroy_ring_buffer_def c_rem_def int32_def)

section \<open>The frame-rate conversion of \<open>poll_av_packet_video\<close>\<close>

text \<open>
  In the theorems of this section the video ring satisfies the invariant, has its block
  and a capacity of at most \<open>2^30\<close> (that of the video ring of the decoder is
  \<open>BUFFERED_VIDEO_FRAMES\<close>), the packet decodes to a frame (\<open>decode_frame\<close> succeeds, the width, the height
  and \<open>data[0]\<close> of the frame are set), and neither \<open>video_fps_num\<close> nor \<open>video_fps_den\<close> is
  negative. \<open>pts\<close> is the timestamp of the frame in seconds and \<open>frame_time\<close> the time of
  one output frame, both as the code computes them, in doubles: the sums and the
  comparisons of timestamps are those of doubles too.
\<close>

text \<open>
  C4. A decoded frame that arrives while the video ring is empty is never dropped, however
  its timestamp compares to the value \<open>video_next_pts\<close> had before: the result of
  \<open>poll_av_packet_video\<close> is the same for every previous value \<open>q\<close> of \<open>video_next_pts\<close>;
  the function sets \<open>video_next_pts\<close> to the timestamp of the frame, writes the frame at
  the tail and appends it, and advances \<open>video_next_pts\<close> by one frame time. The ring
  then holds this one frame.
\<close>

theorem first_video_frame_not_dropped:
  fixes d :: "('s, 'f) decoder_t" and packet :: "('s, 'f) packet"
  assumes "ring_ok (video_frames d)" and "count (video_frames d) = 0"
    and "decode_frame packet"
    and "frame_width packet \<noteq> 0" and "frame_height packet \<noteq> 0" and "frame_data0 packet"
    and "0 \<le> video_fps_num d" and "0 \<le> video_fps_den d"
    and "pts = d_div (d_mul (d_of_int (frame_pts packet)) (d_of_int (time_base_num d)))
                 (d_of_int (time_base_den d))"
    and "frame_time = d_div (d_of_int (video_fps_den d)) (d_of_int (video_fps_num d))"
  shows "\<exists>b. write_batch (video_frames d) [Some (sws_scale packet)] = Inr b
          \<and> poll_av_packet_video d packet
              = Inr (d\<lparr> video_frames := b, video_next_pts := d_add pts frame_time \<rparr>)
          \<and> count b = 1
          \<and> read_head b 0 = Inr (Some (sws_scale packet))
          \<and> poll_av_packet_video (d\<lparr> video_next_pts := q \<rparr>) packet
              = poll_av_packet_video d packet"
proof -
  let ?d = "d\<lparr> video_next_pts := pts \<rparr>"
  have ft: "\<not> d_less frame_time (Finite 0)"
    unfolding assms(10) using assms(7,8) by (rule frame_time_nonneg)
  have isd: "is_double pts" by (simp add: assms(9))
  have ok: "ring_ok (video_frames ?d)" using assms(1) by simp
  have room: "count (video_frames ?d) < capacity (video_frames ?d)"
    using assms(1,2) by (simp add: ring_ok_def ring_inv_def)
  have nodup: "\<not> d_less (d_add (video_next_pts ?d) frame_time) pts"
    using d_add_nonneg_not_less [OF isd ft] by simp
  from emit_video_frame_plain [OF ok room nodup, of packet] obtain b where
    b: "write_batch (video_frames d) [Some (sws_scale packet)] = Inr b"
      "emit_video_frame ?d packet frame_time pts
         = Inr (d\<lparr> video_frames := b, video_next_pts := d_add pts frame_time \<rparr>)"
      "ring_ok b" "count b = 1" "live b = live (video_frames d) @ [Some (sws_scale packet)]"
    using assms(2) by auto
  have p: "poll_av_packet_video (d\<lparr> video_next_pts := q \<rparr>) packet
      = Inr (d\<lparr> video_frames := b, video_next_pts := d_add pts frame_time \<rparr>)" for q
    using assms(2-6) b(2) unfolding assms(9,10)
    by (simp add: poll_av_packet_video_def Let_def)
  from p [of "video_next_pts d"] have p0: "poll_av_packet_video d packet
      = Inr (d\<lparr> video_frames := b, video_next_pts := d_add pts frame_time \<rparr>)" by simp
  have "live (video_frames d) = []" using assms(2) by (simp add: live_empty)
  with b have "read_head b 0 = Inr (Some (sws_scale packet))"
    by (intro read_head_first) simp_all
  with b p p0 show ?thesis by simp
qed

theorem first_video_frame_not_dropped_witness:
  "ring_ok (video_frames ((video_only_decoder [] :: (nat, nat) decoder_t)
       \<lparr> video_next_pts := d_of_int 1000 \<rparr>))
   \<and> count (video_frames ((video_only_decoder [] :: (nat, nat) decoder_t)
       \<lparr> video_next_pts := d_of_int 1000 \<rparr>)) = 0
   \<and> decode_frame (frame_packet 0 (- 40) 7 :: (nat, nat) packet)
   \<and> (\<exists>b. count b = 1 \<and> read_head b 0 = Inr (Some 7)
        \<and> poll_av_packet_video ((video_only_decoder [] :: (nat, nat) decoder_t)
             \<lparr> video_next_pts := d_of_int 1000 \<rparr>) (frame_packet 0 (- 40) 7)
            = Inr ((video_only_decoder [])
                \<lparr> video_frames := b,
                  video_next_pts := Finite (- (8106479329266893 / 4503599627370496)) \<rparr>))"
proof -
  let ?d = "(video_only_decoder [] :: (nat, nat) decoder_t) \<lparr> video_next_pts := d_of_int 1000 \<rparr>"
  let ?p = "frame_packet 0 (- 40) 7 :: (nat, nat) packet"
  have h1: "ring_ok (video_frames ?d)"
    by (simp add: video_only_decoder_def ring_ok_def ring_inv_def BUFFERED_VIDEO_FRAMES_def)
  have h2: "count (video_frames ?d) = 0" by (simp add: video_only_decoder_def)
  have h3: "decode_frame ?p" "frame_width ?p \<noteq> 0" "frame_height ?p \<noteq> 0" "frame_data0 ?p"
    by (simp_all add: decode_frame_def frame_packet_def)
  have h4: "0 \<le> video_fps_num ?d" "0 \<le> video_fps_den ?d"
    by (simp_all add: video_only_decoder_def)
  have v: "d_add (d_div (d_mul (d_of_int (frame_pts ?p)) (d_of_int (time_base_num ?d)))
                    (d_of_int (time_base_den ?d)))
             (d_div (d_of_int (video_fps_den ?d)) (d_of_int (video_fps_num ?d)))
           = Finite (- (8106479329266893 / 4503599627370496))"
    by (simp add: video_only_decoder_def frame_packet_def double_eval)
  from first_video_frame_not_dropped [OF h1 h2 h3 h4 refl refl] obtain b where
    b: "poll_av_packet_video ?d ?p = Inr (?d\<lparr> video_frames := b, video_next_pts :=
          d_add (d_div (d_mul (d_of_int (frame_pts ?p)) (d_of_int (time_base_num ?d)))
                    (d_of_int (time_base_den ?d)))
             (d_div (d_of_int (video_fps_den ?d)) (d_of_int (video_fps_num ?d))) \<rparr>)"
      "count b = 1" "read_head b 0 = Inr (Some (sws_scale ?p))" by blast
  have "sws_scale ?p = 7" by (simp add: frame_packet_def)
  with b have "count b = 1 \<and> read_head b 0 = Inr (Some 7)
        \<and> poll_av_packet_video ?d ?p
            = Inr ((video_only_decoder []) \<lparr> video_frames := b,
                  video_next_pts := Finite (- (8106479329266893 / 4503599627370496)) \<rparr>)"
    unfolding v by simp
  then have "\<exists>b. count b = 1 \<and> read_head b 0 = Inr (Some 7)
        \<and> poll_av_packet_video ?d ?p
            = Inr ((video_only_decoder []) \<lparr> video_frames := b,
                  video_next_pts := Finite (- (8106479329266893 / 4503599627370496)) \<rparr>)" ..
  with h1 h2 h3(1) show ?thesis by (intro conjI)
qed

text \<open>
  C5. With a frame time of 0.2 seconds (5 frames per second) and decoded frames with the
  timestamps 0.0, 0.05, 0.1, 0.15 and 0.2 seconds (0, 1, 2, 3 and 4 in the time base 1/20;
  the frames are numbered by these) arriving at the decoder \<open>open_av_data\<close> leaves, the
  video ring holds the frames of 0.0 and 0.2 seconds at the end and nothing else: the three
  frames in between were dropped. In general, for a video ring that is neither empty nor
  full: a frame whose timestamp is below \<open>video_next_pts\<close> is dropped and changes nothing;
  a frame whose timestamp is equal to \<open>video_next_pts\<close> is accepted; and a frame whose
  timestamp is equal to \<open>video_next_pts + frame_time\<close>, the sum the code computes, is
  accepted with no duplicate in front of it. An accepted frame in these two cases is the
  only item appended. \<open>video_next_pts\<close> holds a value of the type \<open>double\<close>.
\<close>

theorem video_frames_dropped_and_ties:
  fixes d :: "('s, 'f) decoder_t" and packet :: "('s, 'f) packet"
  assumes "ring_ok (video_frames d)" and "count (video_frames d) \<noteq> 0"
    and "count (video_frames d) < capacity (video_frames d)"
    and "decode_frame packet"
    and "frame_width packet \<noteq> 0" and "frame_height packet \<noteq> 0" and "frame_data0 packet"
    and "0 \<le> video_fps_num d" and "0 \<le> video_fps_den d"
    and "is_double (video_next_pts d)"
    and "pts = d_div (d_mul (d_of_int (frame_pts packet)) (d_of_int (time_base_num d)))
                 (d_of_int (time_base_den d))"
    and "frame_time = d_div (d_of_int (video_fps_den d)) (d_of_int (video_fps_num d))"
  shows "map_sum id (\<lambda>d. (live (video_frames d), video_next_pts d))
           (poll_video_packets (video_only_decoder [] :: (nat, nat) decoder_t)
              [frame_packet 0 0 0, frame_packet 0 1 1, frame_packet 0 2 2, frame_packet 0 3 3,
               frame_packet 0 4 4])
           = Inr ([Some 0, Some 4], Finite (3602879701896397 / 9007199254740992))
    \<and> (d_less pts (video_next_pts d) \<longrightarrow> poll_av_packet_video d packet = Inr d)
    \<and> (pts = video_next_pts d \<or> pts = d_add (video_next_pts d) frame_time \<longrightarrow>
         (\<exists>b. write_batch (video_frames d) [Some (sws_scale packet)] = Inr b
          \<and> poll_av_packet_video d packet
              = Inr (d\<lparr> video_frames := b,
                        video_next_pts := d_add (video_next_pts d) frame_time \<rparr>)
          \<and> count b = count (video_frames d) + 1
          \<and> map (read_head b) (map int [0..<nat (count b)])
              = map (read_head (video_frames d)) (map int [0..<nat (count (video_frames d))])
                @ [Inr (Some (sws_scale packet))]))"
proof (intro conjI impI)
  show "map_sum id (\<lambda>d. (live (video_frames d), video_next_pts d))
           (poll_video_packets (video_only_decoder [] :: (nat, nat) decoder_t)
              [frame_packet 0 0 0, frame_packet 0 1 1, frame_packet 0 2 2, frame_packet 0 3 3,
               frame_packet 0 4 4])
           = Inr ([Some 0, Some 4], Finite (3602879701896397 / 9007199254740992))"
    by (rule drop_example)
next
  assume "d_less pts (video_next_pts d)"
  with assms show "poll_av_packet_video d packet = Inr d"
    by (intro poll_av_packet_video_drop) simp_all
next
  assume tie: "pts = video_next_pts d \<or> pts = d_add (video_next_pts d) frame_time"
  have ft: "\<not> d_less frame_time (Finite 0)"
    unfolding assms(12) using assms(8,9) by (rule frame_time_nonneg)
  note up = d_add_nonneg_not_less [OF assms(10) ft]
  from tie up have lo: "\<not> d_less pts (video_next_pts d)"
    and hi: "\<not> d_less (d_add (video_next_pts d) frame_time) pts"
    by auto
  show "\<exists>b. write_batch (video_frames d) [Some (sws_scale packet)] = Inr b
          \<and> poll_av_packet_video d packet
              = Inr (d\<lparr> video_frames := b,
                        video_next_pts := d_add (video_next_pts d) frame_time \<rparr>)
          \<and> count b = count (video_frames d) + 1
          \<and> map (read_head b) (map int [0..<nat (count b)])
              = map (read_head (video_frames d)) (map int [0..<nat (count (video_frames d))])
                @ [Inr (Some (sws_scale packet))]"
    by (rule poll_av_packet_video_accept [OF assms(1-7) assms(11,12) lo hi])
qed

theorem video_frames_dropped_and_ties_witness:
  "poll_av_packet_video
      ((video_only_decoder [] :: (nat, nat) decoder_t)
         \<lparr> video_frames := \<lparr> data = Some 0 # replicate 31 None, item_size = 115200,
              capacity = 32, head = 0, tail = 1, count = 1 \<rparr>,
           video_next_pts := d_div (d_of_int 1) (d_of_int 5) \<rparr>) (frame_packet 0 3 3)
     = Inr ((video_only_decoder [])
         \<lparr> video_frames := \<lparr> data = Some 0 # replicate 31 None, item_size = 115200,
              capacity = 32, head = 0, tail = 1, count = 1 \<rparr>,
           video_next_pts := d_div (d_of_int 1) (d_of_int 5) \<rparr>)
   \<and> (\<exists>b. count b = 2
        \<and> map (read_head b) (map int [0..<nat (count b)]) = [Inr (Some 0), Inr (Some 4)]
        \<and> poll_av_packet_video
             ((video_only_decoder [] :: (nat, nat) decoder_t)
                \<lparr> video_frames := \<lparr> data = Some 0 # replicate 31 None, item_size = 115200,
                     capacity = 32, head = 0, tail = 1, count = 1 \<rparr>,
                  video_next_pts := d_div (d_of_int 1) (d_of_int 5) \<rparr>) (frame_packet 0 4 4)
            = Inr ((video_only_decoder [])
                \<lparr> video_frames := b,
                  video_next_pts := Finite (3602879701896397 / 9007199254740992) \<rparr>))
   \<and> (\<exists>b. count b = 2
        \<and> map (read_head b) (map int [0..<nat (count b)]) = [Inr (Some 0), Inr (Some 8)]
        \<and> poll_av_packet_video
             ((video_only_decoder [] :: (nat, nat) decoder_t)
                \<lparr> video_frames := \<lparr> data = Some 0 # replicate 31 None, item_size = 115200,
                     capacity = 32, head = 0, tail = 1, count = 1 \<rparr>,
                  video_next_pts := d_div (d_of_int 1) (d_of_int 5) \<rparr>) (frame_packet 0 8 8)
            = Inr ((video_only_decoder [])
                \<lparr> video_frames := b,
                  video_next_pts := Finite (3602879701896397 / 9007199254740992) \<rparr>))"
proof -
  let ?v = "\<lparr> data = Some (0::nat) # replicate 31 None, item_size = 115200,
              capacity = 32, head = 0, tail = 1, count = 1 \<rparr>"
  let ?d = "(video_only_decoder [] :: (nat, nat) decoder_t)
         \<lparr> video_frames := ?v, video_next_pts := d_div (d_of_int 1) (d_of_int 5) \<rparr>"
  let ?pts = "\<lambda>t. d_div (d_mul (d_of_int t) (d_of_int 1)) (d_of_int 20)"
  let ?ft = "d_div (d_of_int 1) (d_of_int 5)"
  have h: "ring_ok (video_frames ?d)" "count (video_frames ?d) \<noteq> 0"
    "count (video_frames ?d) < capacity (video_frames ?d)"
    by (simp_all add: ring_ok_def ring_inv_def)
  have pk: "decode_frame (frame_packet 0 t f :: (nat, nat) packet)"
    "frame_width (frame_packet 0 t f :: (nat, nat) packet) \<noteq> 0"
    "frame_height (frame_packet 0 t f :: (nat, nat) packet) \<noteq> 0"
    "frame_data0 (frame_packet 0 t f :: (nat, nat) packet)" for t f
    by (simp_all add: decode_frame_def frame_packet_def)
  have fps: "0 \<le> video_fps_num ?d" "0 \<le> video_fps_den ?d"
    by (simp_all add: video_only_decoder_def)
  have isd: "is_double (video_next_pts ?d)" by simp
  have ft: "?ft = d_div (d_of_int (video_fps_den ?d)) (d_of_int (video_fps_num ?d))"
    by (simp add: video_only_decoder_def)
  have p: "?pts t = d_div (d_mul (d_of_int (frame_pts (frame_packet 0 t f :: (nat, nat) packet)))
      (d_of_int (time_base_num ?d))) (d_of_int (time_base_den ?d))" for t f
    by (simp add: video_only_decoder_def frame_packet_def)
  have nx: "video_next_pts ?d = ?ft" by simp
  have e: "d_less (?pts 3) ?ft" "?pts 4 = ?ft" "?pts 8 = d_add ?ft ?ft"
    "d_add ?ft ?ft = Finite (3602879701896397 / 9007199254740992)"
    by (simp_all add: double_eval)
  have r0: "map (read_head (video_frames ?d)) (map int [0..<nat (count (video_frames ?d))])
      = [Inr (Some 0)]"
    by (simp add: read_head_def ring_buffer_get_head_def load_item_def c_rem_def int32_def
        signed_modulo_int_def)
  have 1: "poll_av_packet_video ?d (frame_packet 0 3 3) = Inr ?d"
  proof -
    have "d_less (?pts 3) (video_next_pts ?d)" unfolding nx by (rule e(1))
    from mp [OF conjunct1 [OF conjunct2
          [OF video_frames_dropped_and_ties [OF h pk fps isd p ft]]] this]
    show ?thesis .
  qed
  have acc: "\<exists>b. count b = 2
        \<and> map (read_head b) (map int [0..<nat (count b)]) = [Inr (Some 0), Inr (Some f)]
        \<and> poll_av_packet_video ?d (frame_packet 0 t f)
            = Inr ((video_only_decoder []) \<lparr> video_frames := b,
                  video_next_pts := Finite (3602879701896397 / 9007199254740992) \<rparr>)"
    if tie: "?pts t = video_next_pts ?d \<or> ?pts t = d_add (video_next_pts ?d) ?ft" for t f
  proof -
    from mp [OF conjunct2 [OF conjunct2
          [OF video_frames_dropped_and_ties [OF h pk fps isd p ft]]] tie]
    obtain b where
      w: "poll_av_packet_video ?d (frame_packet 0 t f)
         = Inr (?d\<lparr> video_frames := b, video_next_pts := d_add (video_next_pts ?d) ?ft \<rparr>)"
        "count b = count (video_frames ?d) + 1"
        "map (read_head b) (map int [0..<nat (count b)])
          = map (read_head (video_frames ?d)) (map int [0..<nat (count (video_frames ?d))])
            @ [Inr (Some (sws_scale (frame_packet 0 t f :: (nat, nat) packet)))]"
      by blast
    have c: "count b = 2" using w(2) by simp
    have r: "map (read_head b) (map int [0..<nat (count b)]) = [Inr (Some 0), Inr (Some f)]"
      unfolding w(3) r0 by (simp add: frame_packet_def)
    have p: "poll_av_packet_video ?d (frame_packet 0 t f)
            = Inr ((video_only_decoder []) \<lparr> video_frames := b,
                  video_next_pts := Finite (3602879701896397 / 9007199254740992) \<rparr>)"
      unfolding w(1) nx e(4) by simp
    from c r p show ?thesis by (intro exI [of _ b] conjI)
  qed
  have 2: "?pts 4 = video_next_pts ?d \<or> ?pts 4 = d_add (video_next_pts ?d) ?ft"
    and 3: "?pts 8 = video_next_pts ?d \<or> ?pts 8 = d_add (video_next_pts ?d) ?ft"
    unfolding nx using e(2,3) by simp_all
  from 1 acc [OF 2] acc [OF 3] show ?thesis by (intro conjI)
qed

text \<open>
  The sum \<open>video_next_pts + frame_time\<close> is a rounded one. With 3 frames per second, the
  time base 1/6 and \<open>video_next_pts\<close> at 0.5 seconds, a frame with the timestamp 5 is 5/6
  of a second in, which is \<open>1/2 + 1/3\<close>; the doubles are 0.8333333333333334 for the
  timestamp and 0.8333333333333333 for the sum, and the frame gets a duplicate in
  front of it.
\<close>

lemma rounded_sum_example:
  "map_sum id (\<lambda>d. (live (video_frames d), video_next_pts d))
     (poll_av_packet_video
        ((video_only_decoder [] :: (nat, nat) decoder_t)
           \<lparr> video_frames := \<lparr> data = Some 0 # replicate 31 None, item_size = 115200,
                capacity = 32, head = 0, tail = 1, count = 1 \<rparr>,
             video_fps_num := 3, time_base_den := 6,
             video_next_pts := Finite (1 / 2) \<rparr>) (frame_packet 0 5 5))
     = Inr ([Some 0, Some 0, Some 5], Finite (2627099782632789 / 2251799813685248))"
  by (simp add: video_eval double_eval upt_rec)

text \<open>
  C3, as the code has it. With a frame time of 0.2 seconds and decoded frames with the
  timestamps 0.0, 0.5 and 1.0 seconds (0, 10 and 20 in the time base 1/20; the frames are
  numbered 0, 5 and 10) arriving at the decoder \<open>open_av_data\<close> leaves: before the frame of
  1.0 seconds is processed the video ring holds 3 frames, the frame of 0.0 seconds, one
  duplicate of it and the frame of 0.5 seconds, and \<open>video_next_pts\<close> is
  0.6000000000000001, three times the double nearest to 0.2 added up. Processing the
  frame of 1.0 seconds adds one duplicate of the frame of 0.5 seconds and the frame itself:
  5 frames in all, and \<open>video_next_pts\<close> is 1. Duplicates are made when the next frame
  arrives, one for every whole frame time that lies strictly before its timestamp.
\<close>

theorem video_frames_duplicated_example:
  "map_sum id (\<lambda>d. (live (video_frames d), video_next_pts d))
     (poll_video_packets (video_only_decoder [] :: (nat, nat) decoder_t)
        [frame_packet 0 0 0, frame_packet 0 10 5])
     = Inr ([Some 0, Some 0, Some 5], Finite (1351079888211149 / 2251799813685248))
   \<and> map_sum id (\<lambda>d. (live (video_frames d), video_next_pts d))
     (poll_video_packets (video_only_decoder [] :: (nat, nat) decoder_t)
        [frame_packet 0 0 0, frame_packet 0 10 5, frame_packet 0 20 10])
     = Inr ([Some 0, Some 0, Some 5, Some 5, Some 10], Finite 1)"
  by (simp add: video_eval double_eval upt_rec)

text \<open>
  C3 as it is stated has 6 frames emitted before the frame of 1.0 seconds is processed.
  There are 3.
\<close>

theorem three_frames_before_third_packet:
  "map_sum id (\<lambda>d. count (video_frames d))
     (poll_video_packets (video_only_decoder [] :: (nat, nat) decoder_t)
        [frame_packet 0 0 0, frame_packet 0 10 5]) = Inr 3
   \<and> map_sum id (\<lambda>d. count (video_frames d))
     (poll_video_packets (video_only_decoder [] :: (nat, nat) decoder_t)
        [frame_packet 0 0 0, frame_packet 0 10 5]) \<noteq> Inr 6"
  by (simp add: video_eval double_eval)

section \<open>Packets of other streams\<close>

text \<open>
  C10. When the input is not yet at its end and the packet \<open>av_read_frame\<close> delivers
  belongs neither to the audio stream nor to the video stream of the decoder,
  \<open>poll_av_data\<close> returns true and the packet is gone from the input; the audio ring, the
  video ring, \<open>video_next_pts\<close> and \<open>end_of_input\<close> are as before.
\<close>

theorem poll_av_data_discards_other_packet:
  assumes "\<not> end_of_input d" and "format d = packet # rest"
    and "stream_index packet \<noteq> audio_stream_index d"
    and "stream_index packet \<noteq> video_stream_index d"
  shows "\<exists>d'. poll_av_data d = Some (Inr (True, d')) \<and> d' = d\<lparr> format := rest \<rparr>
    \<and> audio_samples d' = audio_samples d \<and> video_frames d' = video_frames d
    \<and> video_next_pts d' = video_next_pts d \<and> end_of_input d' = end_of_input d"
  using assms by (simp add: poll_av_data_def)

theorem poll_av_data_discards_other_packet_witness:
  "\<not> end_of_input (video_only_decoder [frame_packet 7 0 (1::nat), frame_packet 0 0 2]
        :: (nat, nat) decoder_t)
   \<and> stream_index (frame_packet 7 0 (1::nat) :: (nat, nat) packet) \<noteq> - 1
   \<and> stream_index (frame_packet 7 0 (1::nat) :: (nat, nat) packet) \<noteq> 0
   \<and> poll_av_data (video_only_decoder [frame_packet 7 0 1, frame_packet 0 0 2]
        :: (nat, nat) decoder_t)
       = Some (Inr (True, video_only_decoder [frame_packet 0 0 2]))"
proof -
  let ?d = "video_only_decoder [frame_packet 7 0 1, frame_packet 0 0 2] :: (nat, nat) decoder_t"
  have h: "\<not> end_of_input ?d" "format ?d = frame_packet 7 0 1 # [frame_packet 0 0 2]"
    "stream_index (frame_packet 7 0 (1::nat) :: (nat, nat) packet) \<noteq> audio_stream_index ?d"
    "stream_index (frame_packet 7 0 (1::nat) :: (nat, nat) packet) \<noteq> video_stream_index ?d"
    by (simp_all add: video_only_decoder_def frame_packet_def)
  from poll_av_data_discards_other_packet [OF h] h show ?thesis
    by (simp add: video_only_decoder_def frame_packet_def)
qed

section \<open>The result of \<open>ensure_av_data\<close>\<close>

text \<open>
  C1, with the needs tested as the code tests them: a need counts as requested when it is
  not 0, which for a need that is not negative is the same as being above 0.

  \<^item> When neither \<open>(needed_audio_samples \<noteq> 0 and count \<le> needed_audio_samples)\<close> holds
    for the audio ring nor the like for the video ring, \<open>ensure_av_data\<close> returns true at
    once and leaves the decoder as it is.
  \<^item> When \<open>ensure_av_data\<close> returns \<open>b\<close> and leaves the decoder \<open>d'\<close>, the input of \<open>d'\<close> is
    what is left of the input after the packets that were pulled. If the loop condition
    is false in \<open>d'\<close> (the loop ran out: every requested ring holds more than the
    requested amount) then \<open>b\<close> is true. If the condition still holds in \<open>d'\<close> then the
    input is at its end, and \<open>b\<close> is true if and only if the ring of every dimension
    whose need is not 0 is not empty.
  \<^item> After the end of the input, \<open>ensure_av_data (d, 100, 0)\<close> returns true while the
    audio ring holds between 1 and 100 samples, and false when it holds none.
  \<^item> With both needs 0 the result is true, whatever the rings hold.
\<close>

theorem ensure_av_data_drain:
  "(\<not> ((na \<noteq> 0 \<and> count (audio_samples d) \<le> na) \<or> (nv \<noteq> 0 \<and> count (video_frames d) \<le> nv))
      \<longrightarrow> ensure_av_data d na nv = Some (Inr (True, d)))
   \<and> (ensure_av_data d na nv = Some (Inr (b, d')) \<longrightarrow>
        (\<exists>k. format d' = drop k (format d)) \<and>
        (if (na \<noteq> 0 \<and> count (audio_samples d') \<le> na) \<or> (nv \<noteq> 0 \<and> count (video_frames d') \<le> nv)
         then end_of_input d' \<and>
              (b \<longleftrightarrow> (na = 0 \<or> 0 < count (audio_samples d')) \<and>
                     (nv = 0 \<or> 0 < count (video_frames d')))
         else b))
   \<and> (end_of_input d \<and> 1 \<le> count (audio_samples d) \<and> count (audio_samples d) \<le> 100
        \<longrightarrow> ensure_av_data d 100 0 = Some (Inr (True, d)))
   \<and> (end_of_input d \<and> count (audio_samples d) = 0
        \<longrightarrow> ensure_av_data d 100 0 = Some (Inr (False, d)))
   \<and> ensure_av_data d 0 0 = Some (Inr (True, d))"
proof (intro conjI impI)
  assume "\<not> ((na \<noteq> 0 \<and> count (audio_samples d) \<le> na) \<or> (nv \<noteq> 0 \<and> count (video_frames d) \<le> nv))"
  then show "ensure_av_data d na nv = Some (Inr (True, d))"
    by (rule ensure_av_data_satisfied)
next
  assume r: "ensure_av_data d na nv = Some (Inr (b, d'))"
  from ensure_av_data_exit [OF r] show "\<exists>k. format d' = drop k (format d)" by blast
  from ensure_av_data_exit [OF r]
  show "if (na \<noteq> 0 \<and> count (audio_samples d') \<le> na) \<or> (nv \<noteq> 0 \<and> count (video_frames d') \<le> nv)
         then end_of_input d' \<and>
              (b \<longleftrightarrow> (na = 0 \<or> 0 < count (audio_samples d')) \<and>
                     (nv = 0 \<or> 0 < count (video_frames d')))
         else b" by blast
next
  assume "end_of_input d \<and> 1 \<le> count (audio_samples d) \<and> count (audio_samples d) \<le> 100"
  then show "ensure_av_data d 100 0 = Some (Inr (True, d))"
    by (simp add: ensure_av_data_exhausted)
next
  assume "end_of_input d \<and> count (audio_samples d) = 0"
  then show "ensure_av_data d 100 0 = Some (Inr (False, d))"
    by (simp add: ensure_av_data_exhausted)
next
  show "ensure_av_data d 0 0 = Some (Inr (True, d))"
    by (simp add: ensure_av_data_satisfied)
qed

theorem ensure_av_data_drain_witness:
  "ensure_av_data
     ((video_only_decoder [] :: (nat, nat) decoder_t)
        \<lparr> audio_samples := \<lparr> data = replicate 8 (Some 1), item_size = 4,
             capacity = 8, head = 2, tail = 5, count = 3 \<rparr>,
          end_of_input := True \<rparr>) 100 0
     = Some (Inr (True, (video_only_decoder [])
        \<lparr> audio_samples := \<lparr> data = replicate 8 (Some 1), item_size = 4,
             capacity = 8, head = 2, tail = 5, count = 3 \<rparr>,
          end_of_input := True \<rparr>))
   \<and> ensure_av_data ((video_only_decoder [] :: (nat, nat) decoder_t) \<lparr> end_of_input := True \<rparr>) 100 0
     = Some (Inr (False, (video_only_decoder []) \<lparr> end_of_input := True \<rparr>))
   \<and> ensure_av_data (video_only_decoder [frame_packet 0 0 5] :: (nat, nat) decoder_t) 0 0
     = Some (Inr (True, video_only_decoder [frame_packet 0 0 5]))
   \<and> (\<exists>b d'. ensure_av_data (video_only_decoder
          [frame_packet 0 0 0, frame_packet 0 10 5, frame_packet 0 20 10] :: (nat, nat) decoder_t) 0 1
          = Some (Inr (b, d'))
        \<and> b \<and> \<not> end_of_input d' \<and> 1 < count (video_frames d')
        \<and> format d' = [frame_packet 0 20 10])
   \<and> (\<exists>b d'. ensure_av_data (video_only_decoder [frame_packet 0 0 0] :: (nat, nat) decoder_t) 0 5
          = Some (Inr (b, d'))
        \<and> b \<and> end_of_input d' \<and> count (video_frames d') = 1 \<and> format d' = [])
   \<and> (\<exists>b d'. ensure_av_data (video_only_decoder [frame_packet 7 0 0] :: (nat, nat) decoder_t) 0 5
          = Some (Inr (b, d'))
        \<and> \<not> b \<and> end_of_input d' \<and> count (video_frames d') = 0 \<and> format d' = [])"
proof -
  let ?a = "(video_only_decoder [] :: (nat, nat) decoder_t)
        \<lparr> audio_samples := \<lparr> data = replicate 8 (Some 1), item_size = 4,
             capacity = 8, head = 2, tail = 5, count = 3 \<rparr>,
          end_of_input := True \<rparr>"
  let ?z = "(video_only_decoder [] :: (nat, nat) decoder_t) \<lparr> end_of_input := True \<rparr>"
  let ?d3 = "video_only_decoder [frame_packet 0 0 0, frame_packet 0 10 5, frame_packet 0 20 10]
     :: (nat, nat) decoder_t"
  let ?d1 = "video_only_decoder [frame_packet 0 0 0] :: (nat, nat) decoder_t"
  let ?d7 = "video_only_decoder [frame_packet 7 0 0] :: (nat, nat) decoder_t"
  have a: "end_of_input ?a \<and> 1 \<le> count (audio_samples ?a) \<and> count (audio_samples ?a) \<le> 100"
    by simp
  have z: "end_of_input ?z \<and> count (audio_samples ?z) = 0"
    by (simp add: video_only_decoder_def)
  from ensure_av_data_drain [of 100 ?a 0 True ?a] a
  have 1: "ensure_av_data ?a 100 0 = Some (Inr (True, ?a))" by blast
  from ensure_av_data_drain [of 100 ?z 0 False ?z] z
  have 2: "ensure_av_data ?z 100 0 = Some (Inr (False, ?z))" by blast
  from ensure_av_data_drain [of 0 "video_only_decoder [frame_packet 0 0 5]" 0 True ?a]
  have 3: "ensure_av_data (video_only_decoder [frame_packet 0 0 5] :: (nat, nat) decoder_t) 0 0
     = Some (Inr (True, video_only_decoder [frame_packet 0 0 5]))" by blast
  have "\<exists>d'. ensure_av_data ?d3 0 1 = Some (Inr (True, d')) \<and> \<not> end_of_input d'
      \<and> format d' = [frame_packet 0 20 10]"
    by (simp add: ensure_av_data.simps poll_av_data_def video_eval double_eval)
  then obtain d3 where r3: "ensure_av_data ?d3 0 1 = Some (Inr (True, d3))"
    "\<not> end_of_input d3" "format d3 = [frame_packet 0 20 10]" by blast
  from ensure_av_data_drain [of 0 ?d3 1 True d3] r3(1,2)
  have c3: "1 < count (video_frames d3)" by (auto split: if_splits)
  have "\<exists>d'. ensure_av_data ?d1 0 5 = Some (Inr (True, d'))
      \<and> count (video_frames d') = 1 \<and> format d' = []"
    by (simp add: ensure_av_data.simps poll_av_data_def video_eval double_eval)
  then obtain d1 where r1: "ensure_av_data ?d1 0 5 = Some (Inr (True, d1))"
    "count (video_frames d1) = 1" "format d1 = []" by blast
  from ensure_av_data_drain [of 0 ?d1 5 True d1] r1(1,2)
  have c1: "end_of_input d1" by (auto split: if_splits)
  have "\<exists>d'. ensure_av_data ?d7 0 5 = Some (Inr (False, d'))
      \<and> count (video_frames d') = 0 \<and> format d' = []"
    by (simp add: ensure_av_data.simps poll_av_data_def video_eval double_eval)
  then obtain d7 where r7: "ensure_av_data ?d7 0 5 = Some (Inr (False, d7))"
    "count (video_frames d7) = 0" "format d7 = []" by blast
  from ensure_av_data_drain [of 0 ?d7 5 False d7] r7(1,2)
  have c7: "end_of_input d7" by (auto split: if_splits)
  from r3 c3 have w3: "\<exists>b d'. ensure_av_data ?d3 0 1 = Some (Inr (b, d'))
        \<and> b \<and> \<not> end_of_input d' \<and> 1 < count (video_frames d')
        \<and> format d' = [frame_packet 0 20 10]" by (intro exI [of _ True] exI [of _ d3]) simp
  from r1 c1 have w1: "\<exists>b d'. ensure_av_data ?d1 0 5 = Some (Inr (b, d'))
        \<and> b \<and> end_of_input d' \<and> count (video_frames d') = 1 \<and> format d' = []"
    by (intro exI [of _ True] exI [of _ d1]) simp
  from r7 c7 have w7: "\<exists>b d'. ensure_av_data ?d7 0 5 = Some (Inr (b, d'))
        \<and> \<not> b \<and> end_of_input d' \<and> count (video_frames d') = 0 \<and> format d' = []"
    by (intro exI [of _ False] exI [of _ d7]) simp
  from 1 2 3 w3 w1 w7 show ?thesis by (intro conjI)
qed

text \<open>
  C1 as it is stated, with "need above 0" for "need not 0", fails for a negative need: here
  the input is at its end, the video ring holds one frame and one frame is needed, and the
  audio ring is empty. With the audio need \<open>- 1\<close> the only dimension with a need above 0 is
  the video one, whose ring is not empty, and yet the result is false.
\<close>

theorem ensure_av_data_negative_need:
  "ensure_av_data
     ((video_only_decoder [] :: (nat, nat) decoder_t)
        \<lparr> video_frames := \<lparr> data = Some 7 # replicate 31 None, item_size = 115200,
             capacity = 32, head = 0, tail = 1, count = 1 \<rparr>,
          end_of_input := True \<rparr>) (- 1) 1
     = Some (Inr (False, (video_only_decoder [])
        \<lparr> video_frames := \<lparr> data = Some 7 # replicate 31 None, item_size = 115200,
             capacity = 32, head = 0, tail = 1, count = 1 \<rparr>,
          end_of_input := True \<rparr>))
   \<and> \<not> (0 < (- 1 :: int))
   \<and> 0 < count (video_frames ((video_only_decoder [] :: (nat, nat) decoder_t)
        \<lparr> video_frames := \<lparr> data = Some 7 # replicate 31 None, item_size = 115200,
             capacity = 32, head = 0, tail = 1, count = 1 \<rparr>,
          end_of_input := True \<rparr>))"
  by (simp add: ensure_av_data_exhausted video_only_decoder_def)

end
